theory Spec2Isabelle
  imports Main "HOL-Library.Word"
begin

section \<open>Shared data of the write path\<close>

text \<open>
  \<open>Status\<close> carries the outcomes that \<^verbatim>\<open>db/write_thread.cc\<close> and \<^verbatim>\<open>nvm/env_nvm.cc\<close>
  construct: \<^verbatim>\<open>Status::OK()\<close>, \<^verbatim>\<open>Status::NotFound()\<close>, \<^verbatim>\<open>Status::IOError(msg)\<close> and
  \<^verbatim>\<open>Status::TimedOut()\<close>.
\<close>

datatype Status = OK | NotFound | IOError string | TimedOut

text \<open>
  The ways a call can stop without returning: a failed \<^verbatim>\<open>assert\<close>, a dereference of a
  null \<^verbatim>\<open>batch\<close>, and \<^verbatim>\<open>front()\<close> of an empty deque.
\<close>

datatype fault = AssertionFailed | NullDereference | FrontOfEmpty

text \<open>
  The write thread looks at a \<^verbatim>\<open>WriteBatch\<close> through two observers only,
  \<^verbatim>\<open>WriteBatchInternal::ByteSize\<close> (a \<^verbatim>\<open>size_t\<close>, the length of a buffer that is in
  memory, kept as a natural number) and \<^verbatim>\<open>WriteBatch::Count\<close> (an \<^verbatim>\<open>int\<close>).
\<close>

record WriteBatch =
  ByteSize :: nat
  Count :: "32 word"

text \<open>
  \<^verbatim>\<open>WriteThread::Writer\<close>, with the fields that the functions of \<^verbatim>\<open>write_thread.cc\<close>
  read or write. A null \<^verbatim>\<open>batch\<close> is \<open>None\<close>. \<^verbatim>\<open>parallel_execute_id\<close> is a signed
  32-bit \<^verbatim>\<open>int\<close>: the word is read with \<open>sint\<close> where the code compares it with zero.
\<close>

record Writer =
  status :: Status
  batch :: "WriteBatch option"
  sync :: bool
  disableWAL :: bool
  in_batch_group :: bool
  "done" :: bool
  has_callback :: bool
  timeout_hint_us :: "64 word"
  parallel_execute_id :: "32 word"

text \<open>
  The members \<^verbatim>\<open>writers_\<close>, \<^verbatim>\<open>parallel_writers_\<close> and \<^verbatim>\<open>unfinished_threads_\<close> are
  written without the trailing underscore. The queues hold \<^verbatim>\<open>Writer*\<close>. A pointer is
  an address, \<open>heap\<close> maps every address to the object it points to, and two queue
  entries with the same address alias the same writer. Each \<^verbatim>\<open>cv.Signal()\<close> is recorded
  by appending the address of the signalled writer to \<open>cv_signals\<close>. The counter
  \<^verbatim>\<open>unfinished_threads_\<close> is 32 bits wide, as the \<^verbatim>\<open>num_threads\<close> stored in it.
\<close>

type_synonym Writer_ptr = nat

record WriteThread =
  writers :: "Writer_ptr list"
  parallel_writers :: "Writer_ptr list"
  unfinished_threads :: "32 word"
  heap :: "Writer_ptr \<Rightarrow> Writer"
  cv_signals :: "Writer_ptr list"

definition cv_Signal :: "Writer_ptr \<Rightarrow> WriteThread \<Rightarrow> WriteThread" where
  "cv_Signal p s = s\<lparr>cv_signals := cv_signals s @ [p]\<rparr>"

definition update_writer ::
  "Writer_ptr \<Rightarrow> (Writer \<Rightarrow> Writer) \<Rightarrow> WriteThread \<Rightarrow> WriteThread" where
  "update_writer p f s = s\<lparr>heap := (heap s)(p := f (heap s p))\<rparr>"

section \<open>WriteThread::EnterWriteThread\<close>

text \<open>
  A wait on \<^verbatim>\<open>w->cv\<close> releases the mutex. What the caller sees when the wait returns is
  a \<open>wakeup\<close>: whether \<^verbatim>\<open>TimedWait\<close> reports that the deadline passed (\<^verbatim>\<open>Wait\<close>
  returns nothing, so the flag is not read there), and what the other threads did to the
  shared state in the meantime.
\<close>

record wakeup =
  expired :: bool
  others :: "WriteThread \<Rightarrow> WriteThread"

text \<open>
  The loop condition
  \<^verbatim>\<open>!w->done && w->parallel_execute_id <= 0 && w != writers_.front()\<close>,
  evaluated left to right with short-circuit.
\<close>

definition must_wait :: "Writer_ptr \<Rightarrow> WriteThread \<Rightarrow> fault + bool" where
  "must_wait w s =
     (if done (heap s w) then Inr False
      else if \<not> sint (parallel_execute_id (heap s w)) \<le> 0 then Inr False
      else (case writers s of
              [] \<Rightarrow> Inl FrontOfEmpty
            | front # _ \<Rightarrow> Inr (w \<noteq> front)))"

text \<open>
  The wait loop over the wake-ups the thread receives. The result is \<open>None\<close> when the
  thread is still blocked after the last wake-up of the list; otherwise it is the value
  of \<^verbatim>\<open>timed_out\<close> and the shared state on leaving the loop.
\<close>

fun wait_loop ::
  "Writer_ptr \<Rightarrow> 64 word \<Rightarrow> wakeup list \<Rightarrow> WriteThread \<Rightarrow> (fault + bool \<times> WriteThread) option"
where
  "wait_loop w expiration_time [] s =
     (case must_wait w s of
        Inl f \<Rightarrow> Some (Inl f)
      | Inr False \<Rightarrow> Some (Inr (False, s))
      | Inr True \<Rightarrow> None)"
| "wait_loop w expiration_time (k # ks) s =
     (case must_wait w s of
        Inl f \<Rightarrow> Some (Inl f)
      | Inr False \<Rightarrow> Some (Inr (False, s))
      | Inr True \<Rightarrow>
          (let s' = others k s in
           if expiration_time = 0 then wait_loop w expiration_time ks s'
           else if expired k then
             (if in_batch_group (heap s' w) then wait_loop w 0 ks s'
              else Some (Inr (True, s')))
           else wait_loop w expiration_time ks s'))"

text \<open>
  The code after the loop. \<open>ndebug\<close> says whether the build defines \<^verbatim>\<open>NDEBUG\<close>, in which
  case \<^verbatim>\<open>assert(found)\<close> is compiled out. \<open>remove1\<close> erases the first occurrence, as the
  \<^verbatim>\<open>for\<close> loop with \<^verbatim>\<open>erase\<close> and \<^verbatim>\<open>break\<close> does.
\<close>

definition leave_queue ::
  "bool \<Rightarrow> Writer_ptr \<Rightarrow> bool \<Rightarrow> WriteThread \<Rightarrow> fault + Status \<times> WriteThread" where
  "leave_queue ndebug w timed_out s =
     (if \<not> done (heap s w) \<and> 0 < sint (parallel_execute_id (heap s w)) then Inr (OK, s)
      else if timed_out then
        (if \<not> ndebug \<and> w \<notin> set (writers s) then Inl AssertionFailed
         else
           (let s1 = s\<lparr>writers := remove1 w (writers s)\<rparr>;
                s2 = (case writers s1 of [] \<Rightarrow> s1 | front # _ \<Rightarrow> cv_Signal front s1)
            in Inr (TimedOut, s2)))
      else Inr (OK, s))"

definition push_back :: "Writer_ptr \<Rightarrow> WriteThread \<Rightarrow> WriteThread" where
  "push_back w s = s\<lparr>writers := writers s @ [w]\<rparr>"

definition EnterWriteThread ::
  "bool \<Rightarrow> Writer_ptr \<Rightarrow> 64 word \<Rightarrow> wakeup list \<Rightarrow> WriteThread
     \<Rightarrow> (fault + Status \<times> WriteThread) option" where
  "EnterWriteThread ndebug w expiration_time ks s =
     (case wait_loop w expiration_time ks (push_back w s) of
        None \<Rightarrow> None
      | Some (Inl f) \<Rightarrow> Some (Inl f)
      | Some (Inr (timed_out, s')) \<Rightarrow> Some (leave_queue ndebug w timed_out s'))"

section \<open>WriteThread::StartParallelRun and ReportParallelRunFinish\<close>

text \<open>
  The \<^verbatim>\<open>while (!writers_.empty())\<close> loop. The list argument is the current content of
  \<^verbatim>\<open>writers_\<close>; every \<^verbatim>\<open>pop_front\<close> is written to the state as well. The sum
  \<^verbatim>\<open>parallel_id += Count()\<close> is taken on 32-bit words and wraps around. A null
  \<^verbatim>\<open>batch\<close> stops the call where \<^verbatim>\<open>batch->Count()\<close> reads it.
\<close>

fun parallel_loop ::
  "Writer_ptr \<Rightarrow> Writer_ptr \<Rightarrow> 32 word \<Rightarrow> Writer_ptr list \<Rightarrow> WriteThread \<Rightarrow> fault + WriteThread"
where
  "parallel_loop w last_writer parallel_id [] s = Inr s"
| "parallel_loop w last_writer parallel_id (parallel_writer # rest) s =
     (let s1 = s\<lparr>parallel_writers := parallel_writers s @ [parallel_writer]\<rparr>;
          s2 = update_writer parallel_writer (\<lambda>x. x\<lparr>parallel_execute_id := parallel_id\<rparr>) s1
      in case batch (heap s2 parallel_writer) of
           None \<Rightarrow> Inl NullDereference
         | Some b \<Rightarrow>
             (let parallel_id' = parallel_id + Count b;
                  s3 = (if parallel_writer \<noteq> w then cv_Signal parallel_writer s2 else s2)
              in if parallel_writer \<noteq> last_writer
                 then parallel_loop w last_writer parallel_id' rest (s3\<lparr>writers := rest\<rparr>)
                 else Inr s3))"

definition StartParallelRun ::
  "bool \<Rightarrow> Writer_ptr \<Rightarrow> 32 word \<Rightarrow> Writer_ptr \<Rightarrow> WriteThread \<Rightarrow> fault + WriteThread" where
  "StartParallelRun ndebug w num_threads last_writer s =
     (if \<not> ndebug \<and> unfinished_threads s \<noteq> 0 then Inl AssertionFailed
      else
        (case parallel_loop w last_writer 1 (writers s) (s\<lparr>unfinished_threads := num_threads\<rparr>) of
           Inl f \<Rightarrow> Inl f
         | Inr s' \<Rightarrow>
             if \<not> ndebug \<and> unat num_threads \<noteq> length (parallel_writers s')
             then Inl AssertionFailed else Inr s'))"

text \<open>\<^verbatim>\<open>unfinished_threads_.fetch_add(-1) == 1\<close>: the old value is compared, the new one stored.\<close>

definition ReportParallelRunFinish :: "WriteThread \<Rightarrow> bool \<times> WriteThread" where
  "ReportParallelRunFinish s =
     (unfinished_threads s = 1, s\<lparr>unfinished_threads := unfinished_threads s - 1\<rparr>)"

text \<open>The results of \<open>n\<close> calls of \<^verbatim>\<open>ReportParallelRunFinish\<close> made one after the other.\<close>

fun report_times :: "nat \<Rightarrow> WriteThread \<Rightarrow> bool list \<times> WriteThread" where
  "report_times 0 s = ([], s)"
| "report_times (Suc n) s =
     (let (b, s1) = ReportParallelRunFinish s;
          (bs, s2) = report_times n s1
      in (b # bs, s2))"

section \<open>WriteThread::ExitWriteThread\<close>

fun exit_loop ::
  "Writer_ptr \<Rightarrow> Writer_ptr \<Rightarrow> Status \<Rightarrow> Writer_ptr list \<Rightarrow> WriteThread \<Rightarrow> WriteThread" where
  "exit_loop w last_writer st [] s = s"
| "exit_loop w last_writer st (ready # rest) s =
     (let s1 = s\<lparr>writers := rest\<rparr>;
          s2 = (if ready \<noteq> w
                then cv_Signal ready (update_writer ready (\<lambda>x. x\<lparr>status := st, done := True\<rparr>) s1)
                else s1)
      in if ready = last_writer then s2 else exit_loop w last_writer st rest s2)"

definition ExitWriteThread ::
  "Writer_ptr \<Rightarrow> Writer_ptr \<Rightarrow> Status \<Rightarrow> WriteThread \<Rightarrow> WriteThread" where
  "ExitWriteThread w last_writer st s =
     (let s' = exit_loop w last_writer st (writers s) s
      in case writers s' of [] \<Rightarrow> s' | front # _ \<Rightarrow> cv_Signal front s')"

section \<open>WriteThread::BuildBatchGroup\<close>

text \<open>
  The \<^verbatim>\<open>for\<close> loop over the writers behind \<^verbatim>\<open>first\<close>. It carries \<^verbatim>\<open>size\<close>,
  \<^verbatim>\<open>*last_writer\<close>, \<^verbatim>\<open>*write_batch_group\<close> and the state; every \<^verbatim>\<open>break\<close> returns what
  has been accumulated, the last one after \<^verbatim>\<open>size\<close> has been increased.
\<close>

fun group_loop ::
  "Writer_ptr \<Rightarrow> nat \<Rightarrow> Writer_ptr list \<Rightarrow> nat \<times> Writer_ptr \<times> WriteBatch list \<times> WriteThread
     \<Rightarrow> nat \<times> Writer_ptr \<times> WriteBatch list \<times> WriteThread"
where
  "group_loop first max_size [] acc = acc"
| "group_loop first max_size (w # ws) (sz, last_writer, write_batch_group, s) =
     (if sync (heap s w) \<and> \<not> sync (heap s first)
        then (sz, last_writer, write_batch_group, s)
      else if \<not> disableWAL (heap s w) \<and> disableWAL (heap s first)
        then (sz, last_writer, write_batch_group, s)
      else if timeout_hint_us (heap s w) < timeout_hint_us (heap s first)
        then (sz, last_writer, write_batch_group, s)
      else if has_callback (heap s w)
        then (sz, last_writer, write_batch_group, s)
      else (case batch (heap s w) of
              None \<Rightarrow> (sz, last_writer, write_batch_group, s)
            | Some b \<Rightarrow>
                (let sz' = sz + ByteSize b
                 in if sz' > max_size then (sz', last_writer, write_batch_group, s)
                    else group_loop first max_size ws
                           (sz', w, write_batch_group @ [b],
                            update_writer w (\<lambda>x. x\<lparr>in_batch_group := True\<rparr>) s))))"

text \<open>\<^verbatim>\<open>max_size\<close> as the code sets it: \<^verbatim>\<open>1 << 20\<close>, or \<^verbatim>\<open>size + (128 << 10)\<close> for a small first batch.\<close>

definition group_max_size :: "nat \<Rightarrow> nat" where
  "group_max_size sz = (if sz \<le> 128 * 1024 then sz + 128 * 1024 else 2 ^ 20)"

text \<open>
  The result is the returned \<^verbatim>\<open>size\<close>, \<^verbatim>\<open>*last_writer\<close>, the batches pushed to
  \<^verbatim>\<open>*write_batch_group\<close> (taken to be empty on entry) and the state. An empty queue and
  a null first batch violate the two \<^verbatim>\<open>REQUIRES\<close>: the asserts fail, and without them
  \<^verbatim>\<open>front()\<close> and \<^verbatim>\<open>ByteSize\<close> have nothing to read.
\<close>

definition BuildBatchGroup ::
  "bool \<Rightarrow> WriteThread \<Rightarrow> fault + nat \<times> Writer_ptr \<times> WriteBatch list \<times> WriteThread" where
  "BuildBatchGroup ndebug s =
     (case writers s of
        [] \<Rightarrow> Inl (if ndebug then FrontOfEmpty else AssertionFailed)
      | first # rest \<Rightarrow>
          (case batch (heap s first) of
             None \<Rightarrow> Inl (if ndebug then NullDereference else AssertionFailed)
           | Some b \<Rightarrow>
               (let sz = ByteSize b;
                    max_size = group_max_size sz
                in if has_callback (heap s first) then Inr (sz, first, [b], s)
                   else Inr (group_loop first max_size rest (sz, first, [b], s)))))"

section \<open>EnvNVM\<close>

text \<open>
  \<^verbatim>\<open>FPathInfo\<close> is what \<^verbatim>\<open>env_nvm.cc\<close> reads of a parsed path: \<^verbatim>\<open>dpath()\<close>,
  \<^verbatim>\<open>fname()\<close> and \<^verbatim>\<open>nvm_managed()\<close>.
\<close>

record FPathInfo =
  dpath :: string
  fname :: string
  nvm_managed :: bool

text \<open>
  \<^verbatim>\<open>env_nvm.cc\<close> calls into code that is declared elsewhere: the constructor and the
  static members of \<^verbatim>\<open>FPathInfo\<close>, the methods of \<^verbatim>\<open>NvmFile\<close>, and the default
  \<^verbatim>\<open>Env\<close> behind \<^verbatim>\<open>posix_\<close>. They are parameters of the model. \<open>'f\<close> is the type of
  an \<^verbatim>\<open>NvmFile\<close> object, \<open>'p\<close> the state of the default environment.
  \<open>NvmFile_from_meta\<close> is the three-argument constructor, \<open>None\<close> when it throws
  \<^verbatim>\<open>std::runtime_error\<close>.
\<close>

record ('f, 'p) collaborators =
  FPathInfo_of :: "string \<Rightarrow> FPathInfo"
  sep :: char
  ends_with :: "string \<Rightarrow> string \<Rightarrow> bool"
  IsNamed :: "'f \<Rightarrow> string \<Rightarrow> bool"
  Rename :: "'f \<Rightarrow> string \<Rightarrow> 'f"
  Unref :: "'f \<Rightarrow> 'f"
  NvmFile_from_meta :: "'p \<Rightarrow> FPathInfo \<Rightarrow> string \<Rightarrow> 'f option"
  posix_FileExists :: "'p \<Rightarrow> string \<Rightarrow> Status"
  posix_RenameFile :: "'p \<Rightarrow> string \<Rightarrow> string \<Rightarrow> Status \<times> 'p"
  posix_GetChildren :: "'p \<Rightarrow> string \<Rightarrow> Status \<times> string list"

text \<open>
  The members \<^verbatim>\<open>posix_\<close> and \<^verbatim>\<open>fs_\<close>, written without the trailing underscore.
  \<^verbatim>\<open>fs_\<close> maps a directory to a vector of \<^verbatim>\<open>NvmFile*\<close>; \<open>objects\<close> maps an address to
  the object there, and \<^verbatim>\<open>new\<close> takes the address \<open>next_free\<close>.
\<close>

record ('f, 'p) EnvNVM =
  posix :: 'p
  fs :: "string \<rightharpoonup> nat list"
  objects :: "nat \<Rightarrow> 'f"
  next_free :: nat

definition FindFileUnguarded ::
  "('f, 'p) collaborators \<Rightarrow> FPathInfo \<Rightarrow> ('f, 'p) EnvNVM \<Rightarrow> nat option \<times> ('f, 'p) EnvNVM"
where
  "FindFileUnguarded D info s =
     (case fs s (dpath info) of
        None \<Rightarrow> (None, s)
      | Some dir \<Rightarrow>
          (case find (\<lambda>a. IsNamed D (objects s a) (fname info)) dir of
             Some a \<Rightarrow> (Some a, s)
           | None \<Rightarrow>
               (case posix_GetChildren D (posix s) (dpath info) of
                  (st, listing) \<Rightarrow>
                    if st \<noteq> OK then (None, s)
                    else
                      (case find (\<lambda>entry. ends_with D entry ''meta''
                                     \<and> take (length (fname info)) entry = fname info) listing of
                         None \<Rightarrow> (None, s)
                       | Some entry \<Rightarrow>
                           (case NvmFile_from_meta D (posix s) info
                                   (dpath info @ [sep D] @ entry) of
                              None \<Rightarrow> (None, s)
                            | Some file \<Rightarrow>
                                (Some (next_free s),
                                 s\<lparr>objects := (objects s)(next_free s := file),
                                   next_free := Suc (next_free s)\<rparr>))))))"

definition DeleteFileUnguarded ::
  "('f, 'p) collaborators \<Rightarrow> FPathInfo \<Rightarrow> ('f, 'p) EnvNVM \<Rightarrow> Status \<times> ('f, 'p) EnvNVM"
where
  "DeleteFileUnguarded D info s =
     (case fs s (dpath info) of
        None \<Rightarrow> (NotFound, s)
      | Some dir \<Rightarrow>
          (case find (\<lambda>a. IsNamed D (objects s a) (fname info)) dir of
             None \<Rightarrow> (NotFound, s)
           | Some a \<Rightarrow>
               (OK, s\<lparr>objects := (objects s)(a := Unref D (objects s a)),
                      fs := (fs s)(dpath info \<mapsto> remove1 a dir)\<rparr>)))"

definition DeleteFile ::
  "('f, 'p) collaborators \<Rightarrow> string \<Rightarrow> ('f, 'p) EnvNVM \<Rightarrow> Status \<times> ('f, 'p) EnvNVM"
where
  "DeleteFile D fpath s =
     (let info = FPathInfo_of D fpath
      in if \<not> nvm_managed info then (posix_FileExists D (posix s) fpath, s)
         else DeleteFileUnguarded D info s)"

definition FileExists ::
  "('f, 'p) collaborators \<Rightarrow> string \<Rightarrow> ('f, 'p) EnvNVM \<Rightarrow> Status \<times> ('f, 'p) EnvNVM"
where
  "FileExists D fpath s =
     (let info = FPathInfo_of D fpath
      in if \<not> nvm_managed info then (posix_FileExists D (posix s) fpath, s)
         else (case FindFileUnguarded D info s of
                 (Some file, s') \<Rightarrow> (OK, s')
               | (None, s') \<Rightarrow> (NotFound, s')))"

text \<open>
  The first test is the code's \<^verbatim>\<open>info_src.nvm_managed() ^ info_src.nvm_managed()\<close>, with
  the source on both sides; on booleans \<^verbatim>\<open>^\<close> is \<open>\<noteq>\<close>.
\<close>

definition RenameFile ::
  "('f, 'p) collaborators \<Rightarrow> string \<Rightarrow> string \<Rightarrow> ('f, 'p) EnvNVM \<Rightarrow> Status \<times> ('f, 'p) EnvNVM"
where
  "RenameFile D fpath_src fpath_tgt s =
     (let info_src = FPathInfo_of D fpath_src;
          info_tgt = FPathInfo_of D fpath_tgt
      in if nvm_managed info_src \<noteq> nvm_managed info_src
         then (IOError ''Renaming a non-NVM file to a NVM file or the other way around.'', s)
         else if \<not> nvm_managed info_src
         then (case posix_RenameFile D (posix s) fpath_src fpath_tgt of
                 (st, p') \<Rightarrow> (st, s\<lparr>posix := p'\<rparr>))
         else if dpath info_src \<noteq> dpath info_tgt
         then (IOError ''Directory change not supported when renaming'', s)
         else (case FindFileUnguarded D info_src s of
                 (None, s1) \<Rightarrow> (NotFound, s1)
               | (Some file, s1) \<Rightarrow>
                   (case FindFileUnguarded D info_tgt s1 of
                      (file_target, s2) \<Rightarrow>
                        (let s3 = (if file_target \<noteq> None
                                   then snd (DeleteFileUnguarded D info_tgt s2) else s2)
                         in (OK, s3\<lparr>objects := (objects s3)
                                      (file := Rename D (objects s3 file) (fname info_tgt))\<rparr>)))))"

section \<open>Vocabulary of the properties\<close>

text \<open>
  \<open>group_upto l q\<close> is the part of the queue \<open>q\<close> from its head up to and including the
  first occurrence of \<open>l\<close> (all of \<open>q\<close> when \<open>l\<close> does not occur), \<open>queue_behind l q\<close>
  is what follows it.
\<close>

definition group_upto :: "Writer_ptr \<Rightarrow> Writer_ptr list \<Rightarrow> Writer_ptr list" where
  "group_upto l q = takeWhile (\<lambda>p. p \<noteq> l) q @ take 1 (dropWhile (\<lambda>p. p \<noteq> l) q)"

definition queue_behind :: "Writer_ptr \<Rightarrow> Writer_ptr list \<Rightarrow> Writer_ptr list" where
  "queue_behind l q = drop 1 (dropWhile (\<lambda>p. p \<noteq> l) q)"

text \<open>The \<^verbatim>\<open>Count()\<close> of the batch of the writer at \<open>p\<close>.\<close>

definition batch_count :: "WriteThread \<Rightarrow> Writer_ptr \<Rightarrow> 32 word" where
  "batch_count s p = (case batch (heap s p) of None \<Rightarrow> 0 | Some b \<Rightarrow> Count b)"

text \<open>
  The compatibility predicates of a candidate \<open>w\<close> with the initiator \<open>first\<close>, as the
  specification lists them: no callback, a batch, not a sync write under a non-sync
  initiator, not a write that needs the WAL under an initiator that disables it, and a
  timeout hint that is not shorter than the initiator's.
\<close>

definition compatible :: "Writer \<Rightarrow> Writer \<Rightarrow> bool" where
  "compatible first w \<longleftrightarrow>
     \<not> has_callback w \<and> batch w \<noteq> None
     \<and> \<not> (sync w \<and> \<not> sync first)
     \<and> \<not> (\<not> disableWAL w \<and> disableWAL first)
     \<and> timeout_hint_us first \<le> timeout_hint_us w"

text \<open>The byte size of the batch of the writer at \<open>p\<close>.\<close>

definition batch_bytes :: "WriteThread \<Rightarrow> Writer_ptr \<Rightarrow> nat" where
  "batch_bytes s p = (case batch (heap s p) of None \<Rightarrow> 0 | Some b \<Rightarrow> ByteSize b)"

text \<open>The state in which the writers at \<open>ps\<close> have \<^verbatim>\<open>in_batch_group\<close> set.\<close>

definition mark_in_group :: "Writer_ptr list \<Rightarrow> WriteThread \<Rightarrow> WriteThread" where
  "mark_in_group ps s =
     s\<lparr>heap := (\<lambda>p. if p \<in> set ps then (heap s p)\<lparr>in_batch_group := True\<rparr> else heap s p)\<rparr>"

text \<open>
  The shared state after the first \<open>n\<close> waits of a thread have returned: what the other
  threads did during each of them, applied in order.
\<close>

definition after_wakeups :: "nat \<Rightarrow> wakeup list \<Rightarrow> WriteThread \<Rightarrow> WriteThread" where
  "after_wakeups n ks s = foldl (\<lambda>s k. others k s) s (take n ks)"

text \<open>
  Calls of \<^verbatim>\<open>EnterWriteThread\<close> made one after the other, each given as the writer, its
  \<^verbatim>\<open>expiration_time\<close> and its wake-ups, and each returning \<^verbatim>\<open>TimedOut\<close>; the result is
  the state after the last one.
\<close>

fun follower_timeouts ::
  "bool \<Rightarrow> (Writer_ptr \<times> 64 word \<times> wakeup list) list \<Rightarrow> WriteThread \<Rightarrow> WriteThread option"
where
  "follower_timeouts ndebug [] s = Some s"
| "follower_timeouts ndebug ((w, expiration_time, ks) # calls) s =
     (case EnterWriteThread ndebug w expiration_time ks s of
        Some (Inr (TimedOut, s')) \<Rightarrow> follower_timeouts ndebug calls s'
      | _ \<Rightarrow> None)"


section \<open>Inputs for evaluation\<close>

text \<open>
  Concrete writers, queues and collaborators on which the functions above are evaluated.
  \<open>plain_writer\<close> is a writer with a batch of the given byte size and count and every
  option off.
\<close>

definition plain_writer :: "nat \<Rightarrow> 32 word \<Rightarrow> Writer" where
  "plain_writer bytes cnt =
     \<lparr>status = OK, batch = Some \<lparr>ByteSize = bytes, Count = cnt\<rparr>, sync = False,
      disableWAL = False, in_batch_group = False, done = False, has_callback = False,
      timeout_hint_us = 0, parallel_execute_id = 0\<rparr>"

definition queue_of :: "Writer_ptr list \<Rightarrow> (Writer_ptr \<Rightarrow> Writer) \<Rightarrow> WriteThread" where
  "queue_of q h =
     \<lparr>writers = q, parallel_writers = [], unfinished_threads = 0, heap = h, cv_signals = []\<rparr>"

text \<open>
  A small instance of the collaborators of \<^verbatim>\<open>EnvNVM\<close>: a path is NVM-managed when it
  ends in \<^verbatim>\<open>.sst\<close>, an \<^verbatim>\<open>NvmFile\<close> is its name, and the default environment is the list
  of the paths that exist.
\<close>

definition sample_info :: "string \<Rightarrow> FPathInfo" where
  "sample_info p =
     \<lparr>dpath = rev (drop 1 (dropWhile (\<lambda>c. c \<noteq> CHR ''/'') (rev p))),
      fname = rev (takeWhile (\<lambda>c. c \<noteq> CHR ''/'') (rev p)),
      nvm_managed = (take 4 (rev p) = rev ''.sst'')\<rparr>"

definition sample_collaborators :: "(string, string list) collaborators" where
  "sample_collaborators =
     \<lparr>FPathInfo_of = sample_info,
      sep = CHR ''/'',
      ends_with = (\<lambda>s suffix. drop (length s - length suffix) s = suffix),
      IsNamed = (\<lambda>f n. f = n),
      Rename = (\<lambda>f n. n),
      Unref = (\<lambda>f. f),
      NvmFile_from_meta = (\<lambda>p info path. if path \<in> set p then Some (fname info) else None),
      posix_FileExists = (\<lambda>p f. if f \<in> set p then OK else NotFound),
      posix_RenameFile =
        (\<lambda>p a b. if a \<in> set p then (OK, b # filter (\<lambda>x. x \<noteq> a \<and> x \<noteq> b) p)
                 else (NotFound, p)),
      posix_GetChildren =
        (\<lambda>p d. (OK, map (\<lambda>x. fname (sample_info x))
                      (filter (\<lambda>x. dpath (sample_info x) = d) p)))\<rparr>"

text \<open>
  Three writers at the addresses 1, 2 and 3 in queue order; the writer at address \<open>p\<close>
  has a batch of \<open>p\<close> KiB holding \<open>p\<close> entries.
\<close>

definition three_writers :: WriteThread where
  "three_writers = queue_of [1, 2, 3] (\<lambda>p. plain_writer (1024 * p) (of_nat p))"

text \<open>
  Scenario S2 of the specification: A (50 KiB), B (10 KiB), C (5 KiB, sync) and D (2 KiB)
  at the addresses 1 to 4.
\<close>

definition absorption_queue :: WriteThread where
  "absorption_queue =
     queue_of [1, 2, 3, 4]
       ((\<lambda>p. plain_writer 2048 1)
          (1 := plain_writer 51200 1, 2 := plain_writer 10240 1,
           3 := (plain_writer 5120 1)\<lparr>sync := True\<rparr>))"

text \<open>
  A single writer of 2 MiB; a writer of 200 KiB followed by one of 400 KiB; a writer of
  1 KiB followed by one of 200 KiB.
\<close>

definition oversized_first :: WriteThread where
  "oversized_first = queue_of [1] (\<lambda>p. plain_writer 2097152 1)"

definition medium_pair :: WriteThread where
  "medium_pair =
     queue_of [1, 2] ((\<lambda>p. plain_writer 409600 1)(1 := plain_writer 204800 1))"

definition small_then_large :: WriteThread where
  "small_then_large =
     queue_of [1, 2] ((\<lambda>p. plain_writer 204800 1)(1 := plain_writer 1024 1))"

text \<open>
  A leader at address 1 alone in the queue, for a second writer to enter behind it, and
  the wake-ups of that writer: its deadline passes while nothing else happens; the leader
  builds its batch group before the deadline passes and exits afterwards (scenario S4); a
  third writer enters before the deadline passes (scenario S5).
\<close>

definition one_leader :: WriteThread where
  "one_leader = queue_of [1] (\<lambda>p. plain_writer 1024 1)"

definition leader_builds_group :: "WriteThread \<Rightarrow> WriteThread" where
  "leader_builds_group s =
     (case BuildBatchGroup False s of Inl f \<Rightarrow> s | Inr (sz, last_writer, grp, s') \<Rightarrow> s')"

definition deadline_passes :: "wakeup list" where
  "deadline_passes = [\<lparr>expired = True, others = (\<lambda>s. s)\<rparr>]"

definition absorbed_then_done :: "wakeup list" where
  "absorbed_then_done =
     [\<lparr>expired = True, others = leader_builds_group\<rparr>,
      \<lparr>expired = False, others = ExitWriteThread 1 2 OK\<rparr>]"

definition newcomer_then_deadline :: "wakeup list" where
  "newcomer_then_deadline =
     [\<lparr>expired = False, others = push_back 3\<rparr>, \<lparr>expired = True, others = (\<lambda>s. s)\<rparr>]"

definition two_timeouts :: "(Writer_ptr \<times> 64 word \<times> wakeup list) list" where
  "two_timeouts = [(2, 10, deadline_passes), (3, 5, deadline_passes)]"

text \<open>
  An environment for \<open>sample_collaborators\<close>: the directory \<^verbatim>\<open>/db\<close> holds the loaded files
  \<^verbatim>\<open>000005.sst\<close> and \<^verbatim>\<open>000007.sst\<close> at the addresses 0 and 1, and the default
  environment holds \<^verbatim>\<open>/db/LOG\<close> and the meta file of \<^verbatim>\<open>000009.sst\<close>.
\<close>

definition sample_env :: "(string, string list) EnvNVM" where
  "sample_env =
     \<lparr>posix = [''/db/LOG'', ''/db/000009.sst.meta''],
      fs = [''/db'' \<mapsto> [0, 1]],
      objects = (\<lambda>a. ''000005.sst'')(1 := ''000007.sst''),
      next_free = 2\<rparr>"

section \<open>The parallel-run counter\<close>

lemma parallel_loop_unfinished:
  "parallel_loop w l pid q s = Inr s' \<Longrightarrow> unfinished_threads s' = unfinished_threads s"
  by (induction q arbitrary: pid s)
     (auto simp: Let_def update_writer_def cv_Signal_def split: option.splits if_splits)

lemma StartParallelRun_unfinished:
  "StartParallelRun nd w n l s = Inr s' \<Longrightarrow> unfinished_threads s' = n"
  by (auto simp: StartParallelRun_def dest!: parallel_loop_unfinished split: if_splits sum.splits)

lemma unat_pred: "unat (u :: 32 word) = Suc k \<Longrightarrow> unat (u - 1) = k"
  by (metis diff_Suc_1 unat_minus_one unsigned_0 nat.distinct(1))

lemma report_times_countdown:
  "unat (unfinished_threads s) = Suc n \<Longrightarrow>
   fst (report_times (Suc n) s) = replicate n False @ [True]"
proof (induction n arbitrary: s)
  case 0
  then have "unfinished_threads s = 1"
    by (simp add: word_unat_eq_iff)
  then show ?case by (simp add: ReportParallelRunFinish_def)
next
  case (Suc n)
  let ?s1 = "snd (ReportParallelRunFinish s)"
  have ne: "unfinished_threads s \<noteq> 1"
    using Suc.prems by auto
  have "unat (unfinished_threads ?s1) = Suc n"
    using Suc.prems by (simp add: ReportParallelRunFinish_def unat_pred)
  from Suc.IH [OF this] have "fst (report_times (Suc n) ?s1) = replicate n False @ [True]" .
  moreover have "report_times (Suc (Suc n)) s =
     (False # fst (report_times (Suc n) ?s1), snd (report_times (Suc n) ?s1))"
    using ne by (simp add: ReportParallelRunFinish_def split: prod.splits)
  ultimately show ?case by simp
qed

lemma parallel_loop_grows:
  "parallel_loop w l pid q s = Inr s' \<Longrightarrow>
   length (parallel_writers s) \<le> length (parallel_writers s')"
proof (induction q arbitrary: pid s)
  case Nil
  then show ?case by simp
next
  case (Cons x q)
  from Cons.prems obtain b where b: "batch (heap s x) = Some b"
    by (auto simp: Let_def update_writer_def split: option.splits)
  show ?case
  proof (cases "x = l")
    case True
    with Cons.prems b show ?thesis
      by (auto simp: Let_def update_writer_def cv_Signal_def split: if_splits)
  next
    case False
    with Cons.prems b obtain pid' s3 where
      "parallel_loop w l pid' q s3 = Inr s'"
      "length (parallel_writers s3) = Suc (length (parallel_writers s))"
      by (auto simp: Let_def update_writer_def cv_Signal_def split: if_splits)
    with Cons.IH show ?thesis by fastforce
  qed
qed

lemma parallel_loop_pushes:
  assumes "parallel_loop w l pid q s = Inr s'" and "q \<noteq> []"
  shows "parallel_writers s' \<noteq> []"
proof -
  from assms(2) obtain x r where q: "q = x # r" by (cases q) auto
  from assms(1) q obtain b where b: "batch (heap s x) = Some b"
    by (auto simp: Let_def update_writer_def split: option.splits)
  show ?thesis
  proof (cases "x = l")
    case True
    with assms(1) q b show ?thesis
      by (auto simp: Let_def update_writer_def cv_Signal_def split: if_splits)
  next
    case False
    with assms(1) q b obtain pid' s3 where
      "parallel_loop w l pid' r s3 = Inr s'"
      "length (parallel_writers s3) = Suc (length (parallel_writers s))"
      by (auto simp: Let_def update_writer_def cv_Signal_def split: if_splits)
    with parallel_loop_grows [of w l pid' r s3 s'] show ?thesis by auto
  qed
qed

text \<open>
  C8. \<^verbatim>\<open>ReportParallelRunFinish\<close> takes one off \<^verbatim>\<open>unfinished_threads_\<close> and changes
  nothing else; it returns true exactly when the counter was 1 and is 0 afterwards. When
  \<^verbatim>\<open>StartParallelRun\<close> has returned, the \<^verbatim>\<open>num_threads\<close> calls that follow return false
  every time but the last, which returns true. There is a last call when \<^verbatim>\<open>num_threads\<close>
  is not 0, which a build with assertions guarantees for a non-empty queue.
\<close>

theorem ReportParallelRunFinish_last_worker:
  "snd (ReportParallelRunFinish s) = s\<lparr>unfinished_threads := unfinished_threads s - 1\<rparr>
   \<and> (fst (ReportParallelRunFinish s) \<longleftrightarrow>
        unfinished_threads s = 1 \<and> unfinished_threads (snd (ReportParallelRunFinish s)) = 0)
   \<and> (StartParallelRun ndebug w num_threads last_writer s0 = Inr s1
        \<and> (num_threads \<noteq> 0 \<or> (\<not> ndebug \<and> writers s0 \<noteq> []))
      \<longrightarrow> fst (report_times (unat num_threads) s1)
            = replicate (unat num_threads - 1) False @ [True])"
proof (intro conjI impI)
  show "snd (ReportParallelRunFinish s) = s\<lparr>unfinished_threads := unfinished_threads s - 1\<rparr>"
    by (simp add: ReportParallelRunFinish_def)
  show "fst (ReportParallelRunFinish s) \<longleftrightarrow>
        unfinished_threads s = 1 \<and> unfinished_threads (snd (ReportParallelRunFinish s)) = 0"
    by (auto simp: ReportParallelRunFinish_def)
next
  assume a: "StartParallelRun ndebug w num_threads last_writer s0 = Inr s1
        \<and> (num_threads \<noteq> 0 \<or> (\<not> ndebug \<and> writers s0 \<noteq> []))"
  then have run: "StartParallelRun ndebug w num_threads last_writer s0 = Inr s1" by simp
  have pos: "num_threads \<noteq> 0"
  proof (cases "num_threads = 0")
    case False then show ?thesis .
  next
    case True
    with a have nd: "\<not> ndebug" and ne: "writers s0 \<noteq> []" by auto
    from run nd obtain s' where
      loop: "parallel_loop w last_writer 1 (writers s0) (s0\<lparr>unfinished_threads := num_threads\<rparr>) = Inr s'"
      and len: "unat num_threads = length (parallel_writers s')"
      by (auto simp: StartParallelRun_def split: if_splits sum.splits)
    from parallel_loop_pushes [OF loop ne] len have "unat num_threads \<noteq> 0" by simp
    then show ?thesis by auto
  qed
  then obtain n where n: "unat num_threads = Suc n"
    by (metis not0_implies_Suc unat_eq_zero)
  from StartParallelRun_unfinished [OF run] n
  have "unat (unfinished_threads s1) = Suc n" by simp
  from report_times_countdown [OF this] n
  show "fst (report_times (unat num_threads) s1) = replicate (unat num_threads - 1) False @ [True]"
    by simp
qed

text \<open>
  The three writers, a parallel run of the first two: the first report returns false, the
  second true.
\<close>

theorem ReportParallelRunFinish_last_worker_witness:
  "StartParallelRun False 1 2 2 three_writers
     = Inr \<lparr>writers = [2, 3], parallel_writers = [1, 2], unfinished_threads = 2,
            heap = (heap three_writers)
                     (1 := (plain_writer 1024 1)\<lparr>parallel_execute_id := 1\<rparr>,
                      2 := (plain_writer 2048 2)\<lparr>parallel_execute_id := 2\<rparr>),
            cv_signals = [2]\<rparr>
   \<and> fst (report_times (unat (2 :: 32 word))
        \<lparr>writers = [2, 3], parallel_writers = [1, 2], unfinished_threads = 2,
            heap = (heap three_writers)
                     (1 := (plain_writer 1024 1)\<lparr>parallel_execute_id := 1\<rparr>,
                      2 := (plain_writer 2048 2)\<lparr>parallel_execute_id := 2\<rparr>),
            cv_signals = [2]\<rparr>) = [False, True]"
proof -
  have run: "StartParallelRun False 1 2 2 three_writers
     = Inr \<lparr>writers = [2, 3], parallel_writers = [1, 2], unfinished_threads = 2,
            heap = (heap three_writers)
                     (1 := (plain_writer 1024 1)\<lparr>parallel_execute_id := 1\<rparr>,
                      2 := (plain_writer 2048 2)\<lparr>parallel_execute_id := 2\<rparr>),
            cv_signals = [2]\<rparr>"
    by (simp add: StartParallelRun_def three_writers_def queue_of_def plain_writer_def Let_def
          update_writer_def cv_Signal_def)
  have two: "unat (2 :: 32 word) = 2" by simp
  have "fst (report_times (unat (2 :: 32 word))
        \<lparr>writers = [2, 3], parallel_writers = [1, 2], unfinished_threads = 2,
            heap = (heap three_writers)
                     (1 := (plain_writer 1024 1)\<lparr>parallel_execute_id := 1\<rparr>,
                      2 := (plain_writer 2048 2)\<lparr>parallel_execute_id := 2\<rparr>),
            cv_signals = [2]\<rparr>) = replicate (unat (2 :: 32 word) - 1) False @ [True]"
    using run
      ReportParallelRunFinish_last_worker
         [where ndebug = False and w = 1 and num_threads = 2 and last_writer = 2
            and ?s0.0 = three_writers, THEN conjunct2, THEN conjunct2]
    by simp
  also have "replicate (unat (2 :: 32 word) - 1) False @ [True] = [False, True]"
    unfolding two by (simp add: numeral_2_eq_2)
  finally show ?thesis using run by simp
qed

section \<open>ExitWriteThread\<close>

lemma group_upto_Cons:
  "group_upto l (x # q) = (if x = l then [x] else x # group_upto l q)"
  by (simp add: group_upto_def)

lemma queue_behind_Cons:
  "queue_behind l (x # q) = (if x = l then q else queue_behind l q)"
  by (simp add: queue_behind_def)

lemma group_upto_Nil: "group_upto l [] = []" by (simp add: group_upto_def)
lemma queue_behind_Nil: "queue_behind l [] = []" by (simp add: queue_behind_def)

lemma exit_loop_result:
  "writers s = q \<Longrightarrow>
   exit_loop w l st q s =
     s\<lparr>writers := queue_behind l q,
       heap := (\<lambda>p. if p \<in> set (group_upto l q) \<and> p \<noteq> w
                     then (heap s p)\<lparr>status := st, done := True\<rparr> else heap s p),
       cv_signals := cv_signals s @ filter (\<lambda>p. p \<noteq> w) (group_upto l q)\<rparr>"
proof (induction q arbitrary: s)
  case Nil
  then show ?case by (simp add: group_upto_Nil queue_behind_Nil)
next
  case (Cons x q)
  show ?case
  proof (cases "x = l")
    case True
    then show ?thesis
      by (auto simp: group_upto_Cons queue_behind_Cons Let_def cv_Signal_def update_writer_def
            fun_eq_iff intro!: WriteThread.equality)
  next
    case False
    let ?s2 = "if x \<noteq> w
                then cv_Signal x (update_writer x (\<lambda>y. y\<lparr>status := st, done := True\<rparr>)
                       (s\<lparr>writers := q\<rparr>))
                else s\<lparr>writers := q\<rparr>"
    have w2: "writers ?s2 = q" by (simp add: cv_Signal_def update_writer_def)
    have step: "exit_loop w l st (x # q) s = exit_loop w l st q ?s2"
      using False by (simp add: Let_def)
    show ?thesis
      unfolding step Cons.IH [OF w2]
      using False
      by (auto simp: group_upto_Cons queue_behind_Cons cv_Signal_def update_writer_def
            fun_eq_iff intro!: WriteThread.equality)
  qed
qed

lemma group_upto_append_behind: "group_upto l q @ queue_behind l q = q"
  by (simp add: group_upto_def queue_behind_def)

text \<open>
  C7. \<^verbatim>\<open>ExitWriteThread(w, last_writer, status)\<close> pops the writers at the head of
  \<^verbatim>\<open>writers_\<close> up to and including \<^verbatim>\<open>last_writer\<close>. Every popped writer other than
  \<^verbatim>\<open>w\<close> gets \<^verbatim>\<open>status\<close> and \<^verbatim>\<open>done = true\<close> and is signalled, in queue order; no other
  writer changes. If a writer remains, the new head is signalled last.
\<close>

theorem ExitWriteThread_pops_and_signals:
  "let popped = group_upto last_writer (writers s);
       s' = ExitWriteThread w last_writer st s
   in writers s = popped @ writers s'
    \<and> writers s' = queue_behind last_writer (writers s)
    \<and> (\<forall>p \<in> set popped. p \<noteq> w \<longrightarrow> heap s' p = (heap s p)\<lparr>status := st, done := True\<rparr>)
    \<and> (\<forall>p. p = w \<or> p \<notin> set popped \<longrightarrow> heap s' p = heap s p)
    \<and> cv_signals s' = cv_signals s @ filter (\<lambda>p. p \<noteq> w) popped
                        @ (case writers s' of [] \<Rightarrow> [] | front # _ \<Rightarrow> [front])
    \<and> parallel_writers s' = parallel_writers s
    \<and> unfinished_threads s' = unfinished_threads s"
proof -
  have loop: "exit_loop w last_writer st (writers s) s =
     s\<lparr>writers := queue_behind last_writer (writers s),
       heap := (\<lambda>p. if p \<in> set (group_upto last_writer (writers s)) \<and> p \<noteq> w
                     then (heap s p)\<lparr>status := st, done := True\<rparr> else heap s p),
       cv_signals := cv_signals s
          @ filter (\<lambda>p. p \<noteq> w) (group_upto last_writer (writers s))\<rparr>"
    by (rule exit_loop_result) simp
  have app: "writers s = group_upto last_writer (writers s) @ queue_behind last_writer (writers s)"
    by (simp add: group_upto_append_behind)
  have exit: "ExitWriteThread w last_writer st s =
     s\<lparr>writers := queue_behind last_writer (writers s),
       heap := (\<lambda>p. if p \<in> set (group_upto last_writer (writers s)) \<and> p \<noteq> w
                     then (heap s p)\<lparr>status := st, done := True\<rparr> else heap s p),
       cv_signals := cv_signals s
          @ filter (\<lambda>p. p \<noteq> w) (group_upto last_writer (writers s))
          @ (case queue_behind last_writer (writers s) of [] \<Rightarrow> [] | front # _ \<Rightarrow> [front])\<rparr>"
    unfolding ExitWriteThread_def loop Let_def
    by (cases "queue_behind last_writer (writers s)") (simp_all add: cv_Signal_def)
  show ?thesis
    unfolding Let_def exit using app by simp
qed

text \<open>
  The three writers, with the writer at 1 leaving as leader of the group that ends at 2:
  the writer at 2 gets the status and the signal, the writer at 3 becomes the head and is
  signalled.
\<close>

theorem ExitWriteThread_pops_and_signals_witness:
  "group_upto 2 (writers three_writers) = [1, 2]
   \<and> writers (ExitWriteThread 1 2 (IOError ''disk'') three_writers) = [3]
   \<and> heap (ExitWriteThread 1 2 (IOError ''disk'') three_writers) 2
       = (plain_writer 2048 2)\<lparr>status := IOError ''disk'', done := True\<rparr>
   \<and> heap (ExitWriteThread 1 2 (IOError ''disk'') three_writers) 1 = plain_writer 1024 1
   \<and> heap (ExitWriteThread 1 2 (IOError ''disk'') three_writers) 3 = plain_writer 3072 3
   \<and> cv_signals (ExitWriteThread 1 2 (IOError ''disk'') three_writers) = [2, 3]"
proof -
  have q: "writers three_writers = [1, 2, 3]" "cv_signals three_writers = []"
    "heap three_writers = (\<lambda>p. plain_writer (1024 * p) (of_nat p))"
    by (simp_all add: three_writers_def queue_of_def)
  have g: "group_upto 2 [1, 2, 3] = [1, 2]"
    by (simp add: group_upto_def)
  have b: "queue_behind 2 [1, 2, 3] = [3]"
    by (simp add: queue_behind_def)
  note th = ExitWriteThread_pops_and_signals
              [of 2 three_writers 1 "IOError ''disk''", unfolded Let_def q g b]
  let ?E = "ExitWriteThread 1 2 (IOError ''disk'') three_writers"
  have w: "writers ?E = [3]"
    by (rule th [THEN conjunct2, THEN conjunct1])
  have "2 \<in> set [1, 2 :: nat]" "(2 :: nat) \<noteq> 1" by simp_all
  with th [THEN conjunct2, THEN conjunct2, THEN conjunct1]
  have "heap ?E 2 = (plain_writer (1024 * 2) (of_nat 2))\<lparr>status := IOError ''disk'', done := True\<rparr>"
    by blast
  then have h2: "heap ?E 2 = (plain_writer 2048 2)\<lparr>status := IOError ''disk'', done := True\<rparr>"
    by simp
  note rest = th [THEN conjunct2, THEN conjunct2, THEN conjunct2]
  have h1: "heap ?E 1 = plain_writer 1024 1"
    using rest [THEN conjunct1, rule_format, of 1] by simp
  have h3: "heap ?E 3 = plain_writer 3072 3"
    using rest [THEN conjunct1, rule_format, of 3] by simp
  have sig: "cv_signals ?E = [2, 3]"
    using rest [THEN conjunct2, THEN conjunct1] unfolding w by simp
  show ?thesis
    unfolding q g by (intro conjI w h1 h2 h3 sig refl)
qed

section \<open>StartParallelRun\<close>

lemma group_upto_mem: "l \<in> set q \<Longrightarrow> group_upto l q = takeWhile (\<lambda>p. p \<noteq> l) q @ [l]"
  by (induction q) (auto simp: group_upto_Cons group_upto_Nil)

lemma parallel_loop_step:
  assumes "batch (heap s x) = Some b"
  shows "parallel_loop w l pid (x # q) s =
     (if x \<noteq> l
      then parallel_loop w l (pid + Count b) q
             (s\<lparr>parallel_writers := parallel_writers s @ [x],
                heap := (heap s)(x := (heap s x)\<lparr>parallel_execute_id := pid\<rparr>),
                cv_signals := cv_signals s @ filter (\<lambda>p. p \<noteq> w) [x], writers := q\<rparr>)
      else Inr (s\<lparr>parallel_writers := parallel_writers s @ [x],
                heap := (heap s)(x := (heap s x)\<lparr>parallel_execute_id := pid\<rparr>),
                cv_signals := cv_signals s @ filter (\<lambda>p. p \<noteq> w) [x]\<rparr>))"
  using assms by (simp add: Let_def update_writer_def cv_Signal_def)

lemma parallel_loop_result:
  assumes "l \<in> set q" and "writers s = q" and "distinct (group_upto l q)"
    and "\<forall>p \<in> set (group_upto l q). batch (heap s p) \<noteq> None"
  shows "parallel_loop w l pid q s =
     Inr (s\<lparr>writers := dropWhile (\<lambda>p. p \<noteq> l) q,
            parallel_writers := parallel_writers s @ group_upto l q,
            heap := (\<lambda>p. if p \<in> set (group_upto l q)
                         then (heap s p)\<lparr>parallel_execute_id :=
                                pid + sum_list (map (batch_count s)
                                        (takeWhile (\<lambda>x. x \<noteq> p) (group_upto l q)))\<rparr>
                         else heap s p),
            cv_signals := cv_signals s @ filter (\<lambda>p. p \<noteq> w) (group_upto l q)\<rparr>)"
  using assms
proof (induction q arbitrary: pid s)
  case Nil
  then show ?case by simp
next
  case (Cons x q)
  from Cons.prems(4) obtain b where b: "batch (heap s x) = Some b"
    by (auto simp: group_upto_Cons split: if_splits)
  note step = parallel_loop_step [OF b, of w l pid q]
  show ?case
  proof (cases "x = l")
    case True
    have g: "group_upto l (x # q) = [x]" using True by (simp add: group_upto_Cons)
    have h: "(heap s)(x := (heap s x)\<lparr>parallel_execute_id := pid\<rparr>) =
             (\<lambda>p. if p \<in> set [x] then (heap s p)\<lparr>parallel_execute_id :=
                      pid + sum_list (map (batch_count s) (takeWhile (\<lambda>y. y \<noteq> p) [x]))\<rparr>
                   else heap s p)"
      by (auto simp: fun_eq_iff)
    show ?thesis
      unfolding step g h using True Cons.prems(2) by simp
  next
    case False
    let ?s3 = "s\<lparr>parallel_writers := parallel_writers s @ [x],
                heap := (heap s)(x := (heap s x)\<lparr>parallel_execute_id := pid\<rparr>),
                cv_signals := cv_signals s @ filter (\<lambda>p. p \<noteq> w) [x], writers := q\<rparr>"
    have xg: "x \<notin> set (group_upto l q)" and dg: "distinct (group_upto l q)"
      using Cons.prems(3) False by (simp_all add: group_upto_Cons)
    have heap3: "heap ?s3 = (heap s)(x := (heap s x)\<lparr>parallel_execute_id := pid\<rparr>)"
      by simp
    have bc: "\<And>p. batch_count ?s3 p = batch_count s p"
      unfolding batch_count_def heap3 by simp
    have l: "l \<in> set q" using Cons.prems(1) False by simp
    have w3: "writers ?s3 = q" by simp
    have nn: "\<forall>p \<in> set (group_upto l q). batch (heap ?s3 p) \<noteq> None"
      unfolding heap3 using Cons.prems(4) False by (simp add: group_upto_Cons)
    have bx: "batch_count s x = Count b" by (simp add: batch_count_def b)
    have g: "group_upto l (x # q) = x # group_upto l q"
      using False by (simp add: group_upto_Cons)
    have h: "(\<lambda>p. if p \<in> set (group_upto l q)
                 then (heap ?s3 p)\<lparr>parallel_execute_id :=
                        pid + Count b + sum_list (map (batch_count s)
                                (takeWhile (\<lambda>y. y \<noteq> p) (group_upto l q)))\<rparr>
                 else heap ?s3 p) =
             (\<lambda>p. if p \<in> set (x # group_upto l q)
                 then (heap s p)\<lparr>parallel_execute_id :=
                        pid + sum_list (map (batch_count s)
                                (takeWhile (\<lambda>y. y \<noteq> p) (x # group_upto l q)))\<rparr>
                 else heap s p)"
      unfolding heap3 using xg by (auto simp: fun_eq_iff bx add.assoc)
    have "parallel_loop w l pid (x # q) s = parallel_loop w l (pid + Count b) q ?s3"
      unfolding step using False by simp
    also note Cons.IH [OF l w3 dg nn]
    finally show ?thesis
      unfolding bc g h using False by simp
  qed
qed

lemma takeWhile_distinct_nth:
  "distinct xs \<Longrightarrow> k < length xs \<Longrightarrow> takeWhile (\<lambda>x. x \<noteq> xs ! k) xs = take k xs"
proof (induction xs arbitrary: k)
  case Nil
  then show ?case by simp
next
  case (Cons a xs)
  then show ?case by (cases k) auto
qed

lemma dropWhile_upto: "l \<in> set q \<Longrightarrow> dropWhile (\<lambda>p. p \<noteq> l) q = l # queue_behind l q"
  by (induction q) (auto simp: queue_behind_Cons)

text \<open>
  C5, amended. Let \<^verbatim>\<open>unfinished_threads_\<close> be 0, \<^verbatim>\<open>last_writer\<close> be in \<^verbatim>\<open>writers_\<close>, the
  writers from the head through \<^verbatim>\<open>last_writer\<close> be distinct and have a batch, and
  \<^verbatim>\<open>num_threads\<close> be the size of \<^verbatim>\<open>parallel_writers_\<close> on entry plus the number of these
  writers. Then \<^verbatim>\<open>StartParallelRun\<close> returns, with or without assertions, and afterwards
  \<^verbatim>\<open>parallel_writers_.size() == num_threads\<close>, the group has been appended to
  \<^verbatim>\<open>parallel_writers_\<close>, whose back is \<^verbatim>\<open>last_writer\<close>, \<^verbatim>\<open>last_writer\<close> is the head of
  \<^verbatim>\<open>writers_\<close>, the counter is \<^verbatim>\<open>num_threads\<close>, the \<open>k\<close>-th writer of the group has
  \<^verbatim>\<open>parallel_execute_id\<close> 1 plus the counts of the batches of the writers before it, and
  every writer of the group but the leader has been signalled.
\<close>

theorem StartParallelRun_postcondition:
  assumes "unfinished_threads s = 0"
    and "last_writer \<in> set (writers s)"
    and "distinct (group_upto last_writer (writers s))"
    and "\<forall>p \<in> set (group_upto last_writer (writers s)). batch (heap s p) \<noteq> None"
    and "unat num_threads
           = length (parallel_writers s) + length (group_upto last_writer (writers s))"
  shows "\<exists>s'. StartParallelRun ndebug leader num_threads last_writer s = Inr s'
     \<and> length (parallel_writers s') = unat num_threads
     \<and> parallel_writers s' = parallel_writers s @ group_upto last_writer (writers s)
     \<and> last (parallel_writers s') = last_writer
     \<and> writers s' = last_writer # queue_behind last_writer (writers s)
     \<and> hd (writers s') = last_writer
     \<and> unfinished_threads s' = num_threads
     \<and> (\<forall>k < length (group_upto last_writer (writers s)).
           parallel_execute_id (heap s' (group_upto last_writer (writers s) ! k))
             = 1 + sum_list (map (batch_count s) (take k (group_upto last_writer (writers s)))))
     \<and> cv_signals s'
           = cv_signals s @ filter (\<lambda>p. p \<noteq> leader) (group_upto last_writer (writers s))"
proof -
  let ?g = "group_upto last_writer (writers s)"
  let ?s0 = "s\<lparr>unfinished_threads := num_threads\<rparr>"
  let ?s' = "?s0\<lparr>writers := dropWhile (\<lambda>p. p \<noteq> last_writer) (writers s),
            parallel_writers := parallel_writers ?s0 @ ?g,
            heap := (\<lambda>p. if p \<in> set ?g
                         then (heap ?s0 p)\<lparr>parallel_execute_id :=
                                1 + sum_list (map (batch_count ?s0)
                                        (takeWhile (\<lambda>x. x \<noteq> p) ?g))\<rparr>
                         else heap ?s0 p),
            cv_signals := cv_signals ?s0 @ filter (\<lambda>p. p \<noteq> leader) ?g\<rparr>"
  have loop: "parallel_loop leader last_writer 1 (writers s) ?s0 = Inr ?s'"
    by (rule parallel_loop_result) (use assms in simp_all)
  have len: "unat num_threads = length (parallel_writers ?s')"
    using assms(5) by simp
  have run: "StartParallelRun ndebug leader num_threads last_writer s = Inr ?s'"
    unfolding StartParallelRun_def loop using assms(1) len by simp
  have bc: "batch_count ?s0 = batch_count s"
    by (simp add: batch_count_def fun_eq_iff)
  have g: "?g = takeWhile (\<lambda>p. p \<noteq> last_writer) (writers s) @ [last_writer]"
    using assms(2) by (rule group_upto_mem)
  have ids: "\<forall>k < length ?g. parallel_execute_id (heap ?s' (?g ! k))
             = 1 + sum_list (map (batch_count s) (take k ?g))"
    using assms(3) by (simp add: bc takeWhile_distinct_nth)
  have lastg: "last (parallel_writers ?s') = last_writer"
    using g by simp
  show ?thesis
    apply (rule exI [of _ ?s'])
    apply (intro conjI run ids lastg)
    using len assms(2) by (simp_all add: dropWhile_upto)
qed

text \<open>
  The three writers as one group and three threads: the identifiers are 1, 2 and 4, as the
  batches before them hold 0, 1 and 3 entries.
\<close>

theorem StartParallelRun_postcondition_witness:
  "unfinished_threads three_writers = 0
   \<and> 3 \<in> set (writers three_writers)
   \<and> group_upto 3 (writers three_writers) = [1, 2, 3]
   \<and> unat (3 :: 32 word) = length (parallel_writers three_writers) + length [1, 2, 3 :: nat]
   \<and> (\<exists>s'. StartParallelRun False 1 3 3 three_writers = Inr s'
          \<and> parallel_writers s' = [1, 2, 3]
          \<and> writers s' = [3]
          \<and> unfinished_threads s' = 3
          \<and> parallel_execute_id (heap s' 1) = 1
          \<and> parallel_execute_id (heap s' 2) = 2
          \<and> parallel_execute_id (heap s' 3) = 4
          \<and> cv_signals s' = [2, 3])"
proof -
  have q: "writers three_writers = [1, 2, 3]" "parallel_writers three_writers = []"
    "cv_signals three_writers = []" "unfinished_threads three_writers = 0"
    by (simp_all add: three_writers_def queue_of_def)
  have g: "group_upto 3 [1, 2, 3] = [1, 2, 3]"
    by (simp add: group_upto_def)
  have b: "queue_behind 3 [1, 2, 3] = []"
    by (simp add: queue_behind_def)
  have bc: "\<And>p. batch_count three_writers p = of_nat p"
    by (simp add: batch_count_def three_writers_def queue_of_def plain_writer_def)
  have h1: "unfinished_threads three_writers = 0" by (rule q)
  have h2: "3 \<in> set (writers three_writers)" by (simp add: q)
  have h3: "distinct (group_upto 3 (writers three_writers))" unfolding q g by simp
  have h4: "\<forall>p \<in> set (group_upto 3 (writers three_writers)). batch (heap three_writers p) \<noteq> None"
    unfolding q g by (simp add: three_writers_def queue_of_def plain_writer_def)
  have h5: "unat (3 :: 32 word)
      = length (parallel_writers three_writers) + length (group_upto 3 (writers three_writers))"
    unfolding q g by simp
  from StartParallelRun_postcondition [OF h1 h2 h3 h4 h5, of False 1, unfolded q g b]
  obtain s' where run: "StartParallelRun False 1 3 3 three_writers = Inr s'"
    and pw: "parallel_writers s' = [] @ [1, 2, 3]"
    and ws: "writers s' = [3]"
    and un: "unfinished_threads s' = 3"
    and ids: "\<forall>k < length [1, 2, 3 :: nat]. parallel_execute_id (heap s' ([1, 2, 3] ! k))
                = 1 + sum_list (map (batch_count three_writers) (take k [1, 2, 3]))"
    and sig: "cv_signals s' = [] @ filter (\<lambda>p. p \<noteq> 1) [1, 2, 3]"
    by blast
  have i1: "parallel_execute_id (heap s' 1) = 1"
    using ids [rule_format, of 0] by simp
  have i2: "parallel_execute_id (heap s' 2) = 2"
    using ids [rule_format, of 1] by (simp add: bc)
  have i3: "parallel_execute_id (heap s' 3) = 4"
    using ids [rule_format, of 2] by (simp add: bc numeral_2_eq_2)
  show ?thesis
    unfolding q g using run pw ws un i1 i2 i3 sig by simp
qed

text \<open>
  C5 as stated leaves \<^verbatim>\<open>num_threads\<close> free. For the queue of three writers, with
  \<^verbatim>\<open>last_writer\<close> the last writer of the group that \<^verbatim>\<open>BuildBatchGroup\<close> forms and
  \<^verbatim>\<open>num_threads = 2\<close>, the final assertion fails; without assertions the call returns
  with three parallel writers.
\<close>

theorem StartParallelRun_size_counterexample:
  "unfinished_threads three_writers = 0
   \<and> hd (writers three_writers) = 1
   \<and> map_sum id (\<lambda>(sz, last_writer, r). last_writer) (BuildBatchGroup False three_writers) = Inr 3
   \<and> StartParallelRun False 1 2 3 three_writers = Inl AssertionFailed
   \<and> map_sum id (\<lambda>s'. length (parallel_writers s')) (StartParallelRun True 1 2 3 three_writers)
       = Inr 3
   \<and> unat (2 :: 32 word) \<noteq> 3"
  by (simp add: three_writers_def queue_of_def plain_writer_def StartParallelRun_def
        BuildBatchGroup_def group_max_size_def Let_def update_writer_def cv_Signal_def)

section \<open>BuildBatchGroup: the group\<close>

lemma compatible_in_batch_group [simp]:
  "compatible (f\<lparr>in_batch_group := a\<rparr>) w = compatible f w"
  "compatible f (w\<lparr>in_batch_group := a\<rparr>) = compatible f w"
  by (simp_all add: compatible_def)

lemma group_loop_stop:
  assumes "\<not> compatible (heap s first) (heap s w)"
  shows "group_loop first m (w # ws) (sz, lw, grp, s) = (sz, lw, grp, s)"
  using assms by (auto simp: compatible_def not_le split: option.splits)

lemma group_loop_full:
  assumes "compatible (heap s first) (heap s w)" and "m < sz + batch_bytes s w"
  shows "group_loop first m (w # ws) (sz, lw, grp, s) = (sz + batch_bytes s w, lw, grp, s)"
  using assms by (auto simp: compatible_def batch_bytes_def not_le Let_def split: option.splits)

lemma group_loop_take:
  assumes "compatible (heap s first) (heap s w)" and "sz + batch_bytes s w \<le> m"
    and "batch (heap s w) = Some b"
  shows "group_loop first m (w # ws) (sz, lw, grp, s) =
         group_loop first m ws (sz + batch_bytes s w, w, grp @ [b], mark_in_group [w] s)"
proof -
  have "update_writer w (\<lambda>x. x\<lparr>in_batch_group := True\<rparr>) s = mark_in_group [w] s"
    by (simp add: update_writer_def mark_in_group_def fun_eq_iff)
  with assms show ?thesis
    by (auto simp: compatible_def batch_bytes_def not_le Let_def split: option.splits)
qed

lemma mark_in_group_fields [simp]:
  "writers (mark_in_group ps s) = writers s"
  "parallel_writers (mark_in_group ps s) = parallel_writers s"
  "unfinished_threads (mark_in_group ps s) = unfinished_threads s"
  "cv_signals (mark_in_group ps s) = cv_signals s"
  "batch (heap (mark_in_group ps s) p) = batch (heap s p)"
  "compatible (heap (mark_in_group ps s) p) (heap (mark_in_group ps s) r)
     = compatible (heap s p) (heap s r)"
  "batch_bytes (mark_in_group ps s) = batch_bytes s"
  by (simp_all add: mark_in_group_def batch_bytes_def fun_eq_iff)

lemma mark_in_group_twice: "mark_in_group ps (mark_in_group [w] s) = mark_in_group (w # ps) s"
  by (auto simp: mark_in_group_def fun_eq_iff intro!: WriteThread.equality)

lemma mark_in_group_Nil [simp]: "mark_in_group [] s = s"
  by (simp add: mark_in_group_def)

lemma group_loop_shape:
  "\<exists>n \<le> length ws.
     (\<forall>i < n. compatible (heap s first) (heap s (ws ! i)))
     \<and> (n \<noteq> 0 \<longrightarrow> sz + sum_list (map (batch_bytes s) (take n ws)) \<le> m)
     \<and> (n < length ws \<longrightarrow>
          \<not> compatible (heap s first) (heap s (ws ! n))
          \<or> m < sz + sum_list (map (batch_bytes s) (take (Suc n) ws)))
     \<and> group_loop first m ws (sz, lw, grp, s) =
         (sz + sum_list (map (batch_bytes s) (take n ws))
             + (if n < length ws \<and> compatible (heap s first) (heap s (ws ! n))
                then batch_bytes s (ws ! n) else 0),
          last (lw # take n ws),
          grp @ map (\<lambda>p. the (batch (heap s p))) (take n ws),
          mark_in_group (take n ws) s)"
proof (induction ws arbitrary: sz lw grp s)
  case Nil
  show ?case by simp
next
  case (Cons w ws)
  show ?case
  proof (cases "compatible (heap s first) (heap s w)")
    case False
    then show ?thesis
      by (intro exI [of _ 0]) (simp add: group_loop_stop del: group_loop.simps)
  next
    case c: True
    show ?thesis
    proof (cases "sz + batch_bytes s w \<le> m")
      case False
      with c show ?thesis
        by (intro exI [of _ 0]) (simp add: group_loop_full del: group_loop.simps)
    next
      case True
      from c obtain b where b: "batch (heap s w) = Some b"
        by (auto simp: compatible_def)
      let ?s1 = "mark_in_group [w] s"
      from Cons.IH [of ?s1 "sz + batch_bytes s w" w "grp @ [b]", unfolded mark_in_group_fields]
      obtain n where n: "n \<le> length ws"
        and comp: "\<forall>i < n. compatible (heap s first) (heap s (ws ! i))"
        and bound: "n \<noteq> 0 \<longrightarrow> sz + batch_bytes s w + sum_list (map (batch_bytes s) (take n ws)) \<le> m"
        and stop: "n < length ws \<longrightarrow>
          \<not> compatible (heap s first) (heap s (ws ! n))
          \<or> m < sz + batch_bytes s w + sum_list (map (batch_bytes s) (take (Suc n) ws))"
        and res: "group_loop first m ws (sz + batch_bytes s w, w, grp @ [b], ?s1) =
         (sz + batch_bytes s w + sum_list (map (batch_bytes s) (take n ws))
             + (if n < length ws \<and> compatible (heap s first) (heap s (ws ! n))
                then batch_bytes s (ws ! n) else 0),
          last (w # take n ws),
          (grp @ [b]) @ map (\<lambda>p. the (batch (heap s p))) (take n ws),
          mark_in_group (take n ws) ?s1)"
        by blast
      have comp': "\<forall>i < Suc n. compatible (heap s first) (heap s ((w # ws) ! i))"
        using c comp by (auto simp: nth_Cons split: nat.splits)
      have bound': "Suc n \<noteq> 0 \<longrightarrow>
          sz + sum_list (map (batch_bytes s) (take (Suc n) (w # ws))) \<le> m"
        using True bound by (cases "n = 0") (simp_all add: add.assoc)
      have stop': "Suc n < length (w # ws) \<longrightarrow>
          \<not> compatible (heap s first) (heap s ((w # ws) ! Suc n))
          \<or> m < sz + sum_list (map (batch_bytes s) (take (Suc (Suc n)) (w # ws)))"
        using stop by (simp add: add.assoc)
      have res': "group_loop first m (w # ws) (sz, lw, grp, s) =
         (sz + sum_list (map (batch_bytes s) (take (Suc n) (w # ws)))
             + (if Suc n < length (w # ws) \<and> compatible (heap s first) (heap s ((w # ws) ! Suc n))
                then batch_bytes s ((w # ws) ! Suc n) else 0),
          last (lw # take (Suc n) (w # ws)),
          grp @ map (\<lambda>p. the (batch (heap s p))) (take (Suc n) (w # ws)),
          mark_in_group (take (Suc n) (w # ws)) s)"
        unfolding group_loop_take [OF c True b] res
        using b by (simp add: mark_in_group_twice add.assoc)
      from n have n': "Suc n \<le> length (w # ws)" by simp
      from n' comp' bound' stop' res' show ?thesis by blast
    qed
  qed
qed

text \<open>
  C3. \<^verbatim>\<open>BuildBatchGroup\<close> fails exactly when the queue is empty or the batch of its head
  is null. Otherwise the group is the prefix of \<^verbatim>\<open>writers_\<close> of length \<open>n\<close>, the number
  of batches returned: the batches are those of the first \<open>n\<close> writers, in order,
  \<^verbatim>\<open>*last_writer\<close> is the last of them, every one of them behind the initiator satisfies
  all compatibility predicates, and exactly these have \<^verbatim>\<open>in_batch_group\<close> set. When the
  initiator has a callback, \<open>n = 1\<close>. Otherwise the scan has stopped at the first writer
  that fails a predicate: if a writer follows the group, it is incompatible or its batch
  would take the cumulative size over \<^verbatim>\<open>max_size\<close>.
\<close>

theorem BuildBatchGroup_contiguous_prefix:
  "case BuildBatchGroup ndebug s of
     Inl f \<Rightarrow> (case writers s of [] \<Rightarrow> True | first # _ \<Rightarrow> batch (heap s first) = None)
   | Inr (sz, last_writer, write_batch_group, s') \<Rightarrow>
       writers s \<noteq> [] \<and>
       (let q = writers s; first = heap s (hd q); n = length write_batch_group
        in 1 \<le> n \<and> n \<le> length q
         \<and> map Some write_batch_group = map (\<lambda>p. batch (heap s p)) (take n q)
         \<and> last_writer = last (take n q)
         \<and> (\<forall>i. 1 \<le> i \<and> i < n \<longrightarrow> compatible first (heap s (q ! i)))
         \<and> (has_callback first \<longrightarrow> n = 1)
         \<and> (\<not> has_callback first \<and> n < length q \<longrightarrow>
               \<not> compatible first (heap s (q ! n))
               \<or> group_max_size (batch_bytes s (hd q))
                    < sum_list (map (batch_bytes s) (take (Suc n) q)))
         \<and> s' = mark_in_group (tl (take n q)) s)"
proof (cases "writers s")
  case Nil
  then show ?thesis by (simp add: BuildBatchGroup_def)
next
  case (Cons first rest)
  show ?thesis
  proof (cases "batch (heap s first)")
    case None
    with Cons show ?thesis by (simp add: BuildBatchGroup_def)
  next
    case (Some b)
    then have bb: "batch_bytes s first = ByteSize b" by (simp add: batch_bytes_def)
    show ?thesis
    proof (cases "has_callback (heap s first)")
      case True
      with Cons Some show ?thesis
        by (simp add: BuildBatchGroup_def Let_def)
    next
      case False
      let ?m = "group_max_size (ByteSize b)"
      from group_loop_shape [of rest s first "ByteSize b" ?m first "[b]"]
      obtain k where k: "k \<le> length rest"
        and comp: "\<forall>i < k. compatible (heap s first) (heap s (rest ! i))"
        and stop: "k < length rest \<longrightarrow>
          \<not> compatible (heap s first) (heap s (rest ! k))
          \<or> ?m < ByteSize b + sum_list (map (batch_bytes s) (take (Suc k) rest))"
        and res: "group_loop first ?m rest (ByteSize b, first, [b], s) =
         (ByteSize b + sum_list (map (batch_bytes s) (take k rest))
             + (if k < length rest \<and> compatible (heap s first) (heap s (rest ! k))
                then batch_bytes s (rest ! k) else 0),
          last (first # take k rest),
          [b] @ map (\<lambda>p. the (batch (heap s p))) (take k rest),
          mark_in_group (take k rest) s)"
        by blast
      have bbg: "BuildBatchGroup ndebug s = Inr
         (ByteSize b + sum_list (map (batch_bytes s) (take k rest))
             + (if k < length rest \<and> compatible (heap s first) (heap s (rest ! k))
                then batch_bytes s (rest ! k) else 0),
          last (first # take k rest),
          [b] @ map (\<lambda>p. the (batch (heap s p))) (take k rest),
          mark_in_group (take k rest) s)"
        using Cons Some False by (simp add: BuildBatchGroup_def Let_def res)
      have batches: "map Some (map (\<lambda>p. the (batch (heap s p))) (take k rest))
                     = map (\<lambda>p. batch (heap s p)) (take k rest)"
        using comp k by (auto simp: compatible_def list_eq_iff_nth_eq)
      have comp': "\<forall>i. 1 \<le> i \<and> i < Suc k \<longrightarrow> compatible (heap s first) (heap s ((first # rest) ! i))"
        using comp by (auto simp: nth_Cons split: nat.splits)
      show ?thesis
        unfolding bbg Cons
        using k stop batches comp' False Some
        by (simp add: Let_def bb)
    qed
  qed
qed

lemma absorption_queue_group:
  "BuildBatchGroup False absorption_queue =
     Inr (61440, 2, [\<lparr>ByteSize = 51200, Count = 1\<rparr>, \<lparr>ByteSize = 10240, Count = 1\<rparr>],
          update_writer 2 (\<lambda>x. x\<lparr>in_batch_group := True\<rparr>) absorption_queue)"
  by (simp add: BuildBatchGroup_def absorption_queue_def queue_of_def plain_writer_def
        group_max_size_def Let_def update_writer_def)

text \<open>
  Scenario S2: the group is A and B, and the scan stops at C, a sync write behind a non-
  sync initiator.
\<close>

theorem BuildBatchGroup_contiguous_prefix_witness:
  "map_sum id (\<lambda>(sz, last_writer, write_batch_group, s'). (last_writer, write_batch_group))
      (BuildBatchGroup False absorption_queue)
     = Inr (2, [\<lparr>ByteSize = 51200, Count = 1\<rparr>, \<lparr>ByteSize = 10240, Count = 1\<rparr>])
   \<and> writers absorption_queue = [1, 2, 3, 4]
   \<and> compatible (heap absorption_queue 1) (heap absorption_queue 2)
   \<and> \<not> has_callback (heap absorption_queue 1)
   \<and> \<not> compatible (heap absorption_queue 1) (heap absorption_queue 3)
   \<and> sync (heap absorption_queue 3) \<and> \<not> sync (heap absorption_queue 1)"
proof -
  have q: "writers absorption_queue = [1, 2, 3, 4]"
    by (simp add: absorption_queue_def queue_of_def)
  have h: "heap absorption_queue 1 = plain_writer 51200 1"
    "heap absorption_queue 2 = plain_writer 10240 1"
    "heap absorption_queue 3 = (plain_writer 5120 1)\<lparr>sync := True\<rparr>"
    by (simp_all add: absorption_queue_def queue_of_def)
  have nc: "\<not> has_callback (heap absorption_queue 1)"
    unfolding h by (simp add: plain_writer_def)
  have fits: "\<not> group_max_size (batch_bytes absorption_queue (hd [1, 2, 3, 4]))
                < sum_list (map (batch_bytes absorption_queue) (take (Suc 2) [1, 2, 3, 4]))"
    by (simp add: batch_bytes_def absorption_queue_def queue_of_def plain_writer_def
          group_max_size_def)
  note th = BuildBatchGroup_contiguous_prefix [where ndebug = False and s = absorption_queue,
      unfolded absorption_queue_group, simplified sum.case prod.case Let_def list.size q]
  note th5 = th [THEN conjunct2, THEN conjunct2, THEN conjunct2, THEN conjunct2, THEN conjunct2]
  have c12: "compatible (heap absorption_queue 1) (heap absorption_queue 2)"
    using th5 [THEN conjunct1, rule_format, of 1] by simp
  have c13: "\<not> compatible (heap absorption_queue 1) (heap absorption_queue 3)"
    using th5 [THEN conjunct2, THEN conjunct2, THEN conjunct1] nc fits by auto
  have sy: "sync (heap absorption_queue 3)" "\<not> sync (heap absorption_queue 1)"
    unfolding h by (simp_all add: plain_writer_def)
  have ev: "map_sum id (\<lambda>(sz, last_writer, write_batch_group, s'). (last_writer, write_batch_group))
      (BuildBatchGroup False absorption_queue)
     = Inr (2, [\<lparr>ByteSize = 51200, Count = 1\<rparr>, \<lparr>ByteSize = 10240, Count = 1\<rparr>])"
    unfolding absorption_queue_group by simp
  from ev q c12 nc c13 sy show ?thesis by blast
qed

section \<open>BuildBatchGroup: the size of the group\<close>

lemma group_max_size_le: "group_max_size x \<le> 2 ^ 20"
  by (simp add: group_max_size_def)

lemma group_bytes_sum:
  assumes "\<forall>i < k. compatible f (heap s (ws ! i))" and "k \<le> length ws"
  shows "sum_list (map ByteSize (map (\<lambda>p. the (batch (heap s p))) (take k ws)))
         = sum_list (map (batch_bytes s) (take k ws))"
proof -
  have "map ByteSize (map (\<lambda>p. the (batch (heap s p))) (take k ws))
        = map (batch_bytes s) (take k ws)"
    using assms by (auto simp: list_eq_iff_nth_eq compatible_def batch_bytes_def)
  then show ?thesis by (simp only:)
qed

text \<open>
  C2, amended. For a non-empty queue whose head has a batch, \<^verbatim>\<open>BuildBatchGroup\<close> returns,
  and the bytes of the batches it has put in the group are at most the larger of the
  byte size of the first batch and \<^verbatim>\<open>max_size\<close>, where \<^verbatim>\<open>max_size\<close> is that size plus
  128 KiB when the size is at most 128 KiB, and 1 MiB otherwise. A group of more than
  the first batch stays within \<^verbatim>\<open>max_size\<close>; a group whose first batch is at most 1 MiB
  stays within 1 MiB. The returned \<^verbatim>\<open>size\<close> is at least the bytes of the group.
\<close>

theorem BuildBatchGroup_group_bytes:
  assumes "writers s = first # rest" and "batch (heap s first) = Some b"
  shows "\<exists>sz last_writer write_batch_group s'.
     BuildBatchGroup ndebug s = Inr (sz, last_writer, write_batch_group, s')
     \<and> sum_list (map ByteSize write_batch_group)
         \<le> max (ByteSize b) (group_max_size (ByteSize b))
     \<and> (write_batch_group \<noteq> [b] \<longrightarrow>
          sum_list (map ByteSize write_batch_group) \<le> group_max_size (ByteSize b))
     \<and> (ByteSize b \<le> 2 ^ 20 \<longrightarrow> sum_list (map ByteSize write_batch_group) \<le> 2 ^ 20)
     \<and> sum_list (map ByteSize write_batch_group) \<le> sz"
proof (cases "has_callback (heap s first)")
  case True
  with assms have "BuildBatchGroup ndebug s = Inr (ByteSize b, first, [b], s)"
    by (simp add: BuildBatchGroup_def Let_def)
  then show ?thesis by simp
next
  case False
  let ?m = "group_max_size (ByteSize b)"
  from group_loop_shape [of rest s first "ByteSize b" ?m first "[b]"]
  obtain k where k: "k \<le> length rest"
    and comp: "\<forall>i < k. compatible (heap s first) (heap s (rest ! i))"
    and bound: "k \<noteq> 0 \<longrightarrow> ByteSize b + sum_list (map (batch_bytes s) (take k rest)) \<le> ?m"
    and res: "group_loop first ?m rest (ByteSize b, first, [b], s) =
     (ByteSize b + sum_list (map (batch_bytes s) (take k rest))
         + (if k < length rest \<and> compatible (heap s first) (heap s (rest ! k))
            then batch_bytes s (rest ! k) else 0),
      last (first # take k rest),
      [b] @ map (\<lambda>p. the (batch (heap s p))) (take k rest),
      mark_in_group (take k rest) s)"
    by blast
  let ?grp = "[b] @ map (\<lambda>p. the (batch (heap s p))) (take k rest)"
  have bbg: "BuildBatchGroup ndebug s = Inr
     (ByteSize b + sum_list (map (batch_bytes s) (take k rest))
         + (if k < length rest \<and> compatible (heap s first) (heap s (rest ! k))
            then batch_bytes s (rest ! k) else 0),
      last (first # take k rest), ?grp, mark_in_group (take k rest) s)"
    using assms False by (simp add: BuildBatchGroup_def Let_def res)
  have total: "sum_list (map ByteSize ?grp)
               = ByteSize b + sum_list (map (batch_bytes s) (take k rest))"
    using group_bytes_sum [OF comp k] by simp
  have one: "k = 0 \<Longrightarrow> ?grp = [b]" by simp
  have b1: "sum_list (map ByteSize ?grp) \<le> max (ByteSize b) ?m"
    unfolding total using bound by (cases "k = 0") auto
  have b2: "?grp \<noteq> [b] \<longrightarrow> sum_list (map ByteSize ?grp) \<le> ?m"
    unfolding total using bound one by (cases "k = 0") auto
  have b3: "ByteSize b \<le> 2 ^ 20 \<longrightarrow> sum_list (map ByteSize ?grp) \<le> 2 ^ 20"
    using b1 group_max_size_le [of "ByteSize b"] by linarith
  have b4: "sum_list (map ByteSize ?grp)
      \<le> ByteSize b + sum_list (map (batch_bytes s) (take k rest))
         + (if k < length rest \<and> compatible (heap s first) (heap s (rest ! k))
            then batch_bytes s (rest ! k) else 0)"
    unfolding total by simp
  from bbg b1 b2 b3 b4 show ?thesis by blast
qed

text \<open>
  Scenario S2: the group of A and B has 60 KiB, within the 178 KiB that a first batch of
  50 KiB allows.
\<close>

theorem BuildBatchGroup_group_bytes_witness:
  "writers absorption_queue = 1 # [2, 3, 4]
   \<and> batch (heap absorption_queue 1) = Some \<lparr>ByteSize = 51200, Count = 1\<rparr>
   \<and> map_sum id (\<lambda>(sz, last_writer, write_batch_group, s'). write_batch_group)
        (BuildBatchGroup False absorption_queue)
       = Inr [\<lparr>ByteSize = 51200, Count = 1\<rparr>, \<lparr>ByteSize = 10240, Count = 1\<rparr>]
   \<and> sum_list (map ByteSize [\<lparr>ByteSize = 51200, Count = 1\<rparr>, \<lparr>ByteSize = 10240, Count = 1\<rparr>])
       \<le> group_max_size 51200
   \<and> sum_list (map ByteSize [\<lparr>ByteSize = 51200, Count = 1\<rparr>, \<lparr>ByteSize = 10240, Count = 1\<rparr>])
       \<le> 2 ^ 20"
proof -
  let ?b = "\<lparr>ByteSize = 51200, Count = 1\<rparr>"
  let ?g = "[\<lparr>ByteSize = 51200, Count = 1\<rparr>, \<lparr>ByteSize = 10240, Count = 1\<rparr>]"
  have q: "writers absorption_queue = 1 # [2, 3, 4]"
    by (simp add: absorption_queue_def queue_of_def)
  have b: "batch (heap absorption_queue 1) = Some ?b"
    by (simp add: absorption_queue_def queue_of_def plain_writer_def)
  from BuildBatchGroup_group_bytes [OF q b, of False] obtain sz lw grp s' where
    run: "BuildBatchGroup False absorption_queue = Inr (sz, lw, grp, s')"
    and b2: "grp \<noteq> [?b] \<longrightarrow> sum_list (map ByteSize grp) \<le> group_max_size (ByteSize ?b)"
    and b3: "ByteSize ?b \<le> 2 ^ 20 \<longrightarrow> sum_list (map ByteSize grp) \<le> 2 ^ 20"
    by blast
  from run have grp: "grp = ?g"
    unfolding absorption_queue_group by simp
  have ev: "map_sum id (\<lambda>(sz, last_writer, write_batch_group, s'). write_batch_group)
        (BuildBatchGroup False absorption_queue) = Inr ?g"
    unfolding absorption_queue_group by simp
  have c2: "sum_list (map ByteSize ?g) \<le> group_max_size 51200"
    using b2 unfolding grp by simp
  have c3: "sum_list (map ByteSize ?g) \<le> 2 ^ 20"
    using b3 unfolding grp by simp
  from q b ev c2 c3 show ?thesis by blast
qed

text \<open>
  C2 as stated fails. A first batch of 2 MiB is a group of 2 MiB. With a first batch of
  200 KiB, \<^verbatim>\<open>max_size\<close> is 1 MiB and not 328 KiB, and a batch of 400 KiB is merged. With
  a first batch of 1 KiB, a batch of 200 KiB is rejected and yet counted in the returned
  \<^verbatim>\<open>size\<close>.
\<close>

theorem BuildBatchGroup_size_counterexample:
  "map_sum id (\<lambda>(sz, last_writer, write_batch_group, s'). (sz, map ByteSize write_batch_group))
      (BuildBatchGroup False oversized_first) = Inr (2097152, [2097152])
   \<and> \<not> (2097152 :: nat) \<le> 2 ^ 20
   \<and> map_sum id (\<lambda>(sz, last_writer, write_batch_group, s'). (sz, map ByteSize write_batch_group))
      (BuildBatchGroup False medium_pair) = Inr (614400, [204800, 409600])
   \<and> \<not> (614400 :: nat) \<le> min (2 ^ 20) (204800 + 128 * 1024)
   \<and> map_sum id (\<lambda>(sz, last_writer, write_batch_group, s'). (sz, map ByteSize write_batch_group))
      (BuildBatchGroup False small_then_large) = Inr (205824, [1024])
   \<and> \<not> (205824 :: nat) \<le> min (2 ^ 20) (1024 + 128 * 1024)"
  by (simp add: oversized_first_def medium_pair_def small_then_large_def queue_of_def
        plain_writer_def BuildBatchGroup_def group_max_size_def Let_def update_writer_def)

section \<open>EnterWriteThread\<close>

lemma after_wakeups_0 [simp]: "after_wakeups 0 ks s = s"
  by (simp add: after_wakeups_def)

lemma after_wakeups_Suc_Cons [simp]:
  "after_wakeups (Suc n) (k # ks) s = after_wakeups n ks (others k s)"
  by (simp add: after_wakeups_def)

lemma wait_loop_untimed: "wait_loop w 0 ks s \<noteq> Some (Inr (True, s'))"
  by (induction ks arbitrary: s) (auto split: sum.splits bool.splits)

lemma wait_loop_timed_out:
  assumes "wait_loop w e ks s = Some (Inr (True, s'))"
  shows "e \<noteq> 0 \<and> (\<exists>n < length ks. expired (ks ! n) \<and> (\<forall>j < n. \<not> expired (ks ! j))
           \<and> (\<forall>j \<le> n. must_wait w (after_wakeups j ks s) = Inr True)
           \<and> \<not> in_batch_group (heap (after_wakeups (Suc n) ks s) w)
           \<and> s' = after_wakeups (Suc n) ks s)"
  using assms
proof (induction ks arbitrary: s)
  case Nil
  then show ?case by (auto split: sum.splits bool.splits)
next
  case (Cons k ks)
  from Cons.prems have mw: "must_wait w s = Inr True"
    by (auto split: sum.splits bool.splits)
  from Cons.prems wait_loop_untimed have e: "e \<noteq> 0" by metis
  show ?case
  proof (cases "expired k")
    case True
    with Cons.prems mw e wait_loop_untimed [of w ks "others k s" s']
    have "\<not> in_batch_group (heap (others k s) w)" and "s' = others k s"
      by (auto simp: Let_def split: if_splits)
    with True mw e show ?thesis
      by (intro conjI exI [of _ 0]) auto
  next
    case False
    with Cons.prems mw e have "wait_loop w e ks (others k s) = Some (Inr (True, s'))"
      by (simp add: Let_def)
    from Cons.IH [OF this] obtain n where n: "n < length ks" "expired (ks ! n)"
      "\<forall>j < n. \<not> expired (ks ! j)"
      "\<forall>j \<le> n. must_wait w (after_wakeups j ks (others k s)) = Inr True"
      "\<not> in_batch_group (heap (after_wakeups (Suc n) ks (others k s)) w)"
      "s' = after_wakeups (Suc n) ks (others k s)"
      by blast
    have a: "\<forall>j < Suc n. \<not> expired ((k # ks) ! j)"
      using n(3) False by (auto simp: nth_Cons split: nat.splits)
    have b: "\<forall>j \<le> Suc n. must_wait w (after_wakeups j (k # ks) s) = Inr True"
    proof (intro allI impI)
      fix j assume "j \<le> Suc n"
      then show "must_wait w (after_wakeups j (k # ks) s) = Inr True"
        using n(4) mw by (cases j) auto
    qed
    from e n a b show ?thesis
      by (intro conjI exI [of _ "Suc n"]) auto
  qed
qed

lemma wait_loop_switch:
  assumes "e \<noteq> 0" and "n < length ks" and "expired (ks ! n)" and "\<forall>j < n. \<not> expired (ks ! j)"
    and "\<forall>j \<le> n. must_wait w (after_wakeups j ks s) = Inr True"
    and "in_batch_group (heap (after_wakeups (Suc n) ks s) w)"
  shows "wait_loop w e ks s = wait_loop w 0 (drop (Suc n) ks) (after_wakeups (Suc n) ks s)"
  using assms
proof (induction n arbitrary: ks s)
  case 0
  then obtain k r where ks: "ks = k # r" by (cases ks) auto
  with 0 show ?case by (simp add: Let_def)
next
  case (Suc n)
  then obtain k r where ks: "ks = k # r" by (cases ks) auto
  from Suc.prems(5) [rule_format, of 0] have mw: "must_wait w s = Inr True" by simp
  from Suc.prems(4) ks have nk: "\<not> expired k" by auto
  have "wait_loop w e r (others k s)
        = wait_loop w 0 (drop (Suc n) r) (after_wakeups (Suc n) r (others k s))"
  proof (rule Suc.IH)
    show "e \<noteq> 0" by fact
    show "n < length r" using Suc.prems(2) ks by simp
    show "expired (r ! n)" using Suc.prems(3) ks by simp
    show "\<forall>j < n. \<not> expired (r ! j)"
      using Suc.prems(4) ks by (metis Suc_less_eq nth_Cons_Suc)
    show "\<forall>j \<le> n. must_wait w (after_wakeups j r (others k s)) = Inr True"
    proof (intro allI impI)
      fix j assume "j \<le> n"
      with Suc.prems(5) [rule_format, of "Suc j"] ks
      show "must_wait w (after_wakeups j r (others k s)) = Inr True" by simp
    qed
    show "in_batch_group (heap (after_wakeups (Suc n) r (others k s)) w)"
      using Suc.prems(6) ks by simp
  qed
  with mw nk Suc.prems(1) ks show ?case by (simp add: Let_def)
qed

lemma leave_queue_TimedOut:
  assumes "leave_queue ndebug w t s = Inr (TimedOut, s')"
  shows "t \<and> (\<not> ndebug \<longrightarrow> w \<in> set (writers s))
     \<and> writers s' = remove1 w (writers s)
     \<and> cv_signals s' = cv_signals s @ (case writers s' of [] \<Rightarrow> [] | front # _ \<Rightarrow> [front])
     \<and> heap s' = heap s \<and> parallel_writers s' = parallel_writers s
     \<and> unfinished_threads s' = unfinished_threads s"
  using assms
  by (cases "remove1 w (writers s)")
     (auto simp: leave_queue_def Let_def cv_Signal_def split: if_splits)

lemma EnterWriteThread_TimedOut_D:
  assumes "EnterWriteThread ndebug w e ks s = Some (Inr (TimedOut, s'))"
  shows "\<exists>s1. wait_loop w e ks (push_back w s) = Some (Inr (True, s1))
           \<and> leave_queue ndebug w True s1 = Inr (TimedOut, s')"
proof -
  from assms obtain t s1 where wl: "wait_loop w e ks (push_back w s) = Some (Inr (t, s1))"
    and lq: "leave_queue ndebug w t s1 = Inr (TimedOut, s')"
    by (auto simp: EnterWriteThread_def split: option.splits sum.splits)
  from leave_queue_TimedOut [OF lq] have t by simp
  with wl lq show ?thesis by auto
qed

text \<open>
  C4. If \<^verbatim>\<open>EnterWriteThread\<close> returns \<^verbatim>\<open>TimedOut\<close>, then \<^verbatim>\<open>expiration_time\<close> is not 0 and
  the first wait to expire did so while \<^verbatim>\<open>w->in_batch_group\<close> was false. If the first
  wait to expire does so while \<^verbatim>\<open>w->in_batch_group\<close> is true, the call does not return
  \<^verbatim>\<open>TimedOut\<close>, whatever follows; and when the thread was waiting with a deadline until
  then, it goes on as the loop with \<^verbatim>\<open>expiration_time = 0\<close> does on the remaining
  wake-ups.
\<close>

theorem EnterWriteThread_TimedOut_only_after_expiry:
  "(EnterWriteThread ndebug w e ks s = Some (Inr (TimedOut, s')) \<longrightarrow>
      e \<noteq> 0
      \<and> (\<exists>n < length ks. expired (ks ! n) \<and> (\<forall>j < n. \<not> expired (ks ! j))
            \<and> \<not> in_batch_group (heap (after_wakeups (Suc n) ks (push_back w s)) w)))
   \<and> (n < length ks \<and> expired (ks ! n) \<and> (\<forall>j < n. \<not> expired (ks ! j))
       \<and> in_batch_group (heap (after_wakeups (Suc n) ks (push_back w s)) w) \<longrightarrow>
         EnterWriteThread ndebug w e ks s \<noteq> Some (Inr (TimedOut, s'))
         \<and> (e \<noteq> 0 \<and> (\<forall>j \<le> n. must_wait w (after_wakeups j ks (push_back w s)) = Inr True) \<longrightarrow>
               wait_loop w e ks (push_back w s)
                 = wait_loop w 0 (drop (Suc n) ks) (after_wakeups (Suc n) ks (push_back w s))))"
proof (intro conjI impI)
  assume "EnterWriteThread ndebug w e ks s = Some (Inr (TimedOut, s'))"
  from EnterWriteThread_TimedOut_D [OF this] obtain s1 where
    "wait_loop w e ks (push_back w s) = Some (Inr (True, s1))" by blast
  from wait_loop_timed_out [OF this]
  show "e \<noteq> 0" and "\<exists>n < length ks. expired (ks ! n) \<and> (\<forall>j < n. \<not> expired (ks ! j))
            \<and> \<not> in_batch_group (heap (after_wakeups (Suc n) ks (push_back w s)) w)"
    by blast+
next
  assume a: "n < length ks \<and> expired (ks ! n) \<and> (\<forall>j < n. \<not> expired (ks ! j))
       \<and> in_batch_group (heap (after_wakeups (Suc n) ks (push_back w s)) w)"
  show "EnterWriteThread ndebug w e ks s \<noteq> Some (Inr (TimedOut, s'))"
  proof
    assume "EnterWriteThread ndebug w e ks s = Some (Inr (TimedOut, s'))"
    from EnterWriteThread_TimedOut_D [OF this] obtain s1 where
      "wait_loop w e ks (push_back w s) = Some (Inr (True, s1))" by blast
    from wait_loop_timed_out [OF this] obtain m where m: "m < length ks" "expired (ks ! m)"
      "\<forall>j < m. \<not> expired (ks ! j)"
      "\<not> in_batch_group (heap (after_wakeups (Suc m) ks (push_back w s)) w)"
      by blast
    from m(2,3) a have "m = n" by (meson nat_neq_iff)
    with m(4) a show False by simp
  qed
  assume "e \<noteq> 0 \<and> (\<forall>j \<le> n. must_wait w (after_wakeups j ks (push_back w s)) = Inr True)"
  with a show "wait_loop w e ks (push_back w s)
                 = wait_loop w 0 (drop (Suc n) ks) (after_wakeups (Suc n) ks (push_back w s))"
    by (intro wait_loop_switch) auto
qed

lemmas eval_defs = EnterWriteThread_def push_back_def one_leader_def must_wait_def Let_def
  leave_queue_def queue_of_def plain_writer_def cv_Signal_def update_writer_def
  leader_builds_group_def BuildBatchGroup_def group_max_size_def ExitWriteThread_def
  after_wakeups_def

text \<open>
  A writer behind a leader. When its deadline passes and nothing else has happened, it
  times out. In scenario S4 the leader has put it in its batch group when the deadline
  passes: it waits on without a deadline and returns OK after the leader's exit.
\<close>

theorem EnterWriteThread_TimedOut_only_after_expiry_witness:
  "map_option (map_sum id fst) (EnterWriteThread False 2 10 deadline_passes one_leader)
     = Some (Inr TimedOut)
   \<and> (10 :: 64 word) \<noteq> 0
   \<and> expired (deadline_passes ! 0)
   \<and> \<not> in_batch_group (heap (after_wakeups 1 deadline_passes (push_back 2 one_leader)) 2)
   \<and> expired (absorbed_then_done ! 0)
   \<and> in_batch_group (heap (after_wakeups 1 absorbed_then_done (push_back 2 one_leader)) 2)
   \<and> map_option (map_sum id fst) (EnterWriteThread False 2 10 absorbed_then_done one_leader)
     = Some (Inr OK)
   \<and> wait_loop 2 10 absorbed_then_done (push_back 2 one_leader)
     = wait_loop 2 0 (drop 1 absorbed_then_done)
         (after_wakeups 1 absorbed_then_done (push_back 2 one_leader))"
proof -
  let ?X = "(queue_of [1] (\<lambda>p. plain_writer 1024 1))\<lparr>cv_signals := [1]\<rparr>"
  have run1: "EnterWriteThread False 2 10 deadline_passes one_leader = Some (Inr (TimedOut, ?X))"
    by (simp add: eval_defs deadline_passes_def)
  have len: "length deadline_passes = Suc 0"
    by (simp add: deadline_passes_def)
  from EnterWriteThread_TimedOut_only_after_expiry
         [where ndebug = False and w = 2 and e = 10 and ks = deadline_passes
            and s = one_leader and s' = ?X and n = 0, THEN conjunct1, rule_format, OF run1]
  obtain n where e: "(10 :: 64 word) \<noteq> 0" and n: "n < length deadline_passes"
    and ex: "expired (deadline_passes ! n)"
    and nb: "\<not> in_batch_group (heap (after_wakeups (Suc n) deadline_passes (push_back 2 one_leader)) 2)"
    by blast
  from n len have n0: "n = 0" by simp
  have ex2: "expired (absorbed_then_done ! 0)"
    by (simp add: absorbed_then_done_def)
  have ib: "in_batch_group (heap (after_wakeups (Suc 0) absorbed_then_done (push_back 2 one_leader)) 2)"
    by (simp add: eval_defs absorbed_then_done_def)
  have mw: "\<forall>j \<le> 0. must_wait 2 (after_wakeups j absorbed_then_done (push_back 2 one_leader)) = Inr True"
    by (simp add: eval_defs absorbed_then_done_def)
  have len2: "0 < length absorbed_then_done"
    by (simp add: absorbed_then_done_def)
  from len2 ex2 ib have pre: "0 < length absorbed_then_done \<and> expired (absorbed_then_done ! 0)
       \<and> (\<forall>j < 0. \<not> expired (absorbed_then_done ! j))
       \<and> in_batch_group (heap (after_wakeups (Suc 0) absorbed_then_done (push_back 2 one_leader)) 2)"
    by simp
  note second = EnterWriteThread_TimedOut_only_after_expiry
         [where ndebug = False and w = 2 and e = 10 and ks = absorbed_then_done
            and s = one_leader and n = 0, THEN conjunct2, rule_format, OF pre]
  from second [THEN conjunct2, rule_format] e mw
  have sw: "wait_loop 2 10 absorbed_then_done (push_back 2 one_leader)
     = wait_loop 2 0 (drop (Suc 0) absorbed_then_done)
         (after_wakeups (Suc 0) absorbed_then_done (push_back 2 one_leader))"
    by blast
  have run2: "map_option (map_sum id fst) (EnterWriteThread False 2 10 absorbed_then_done one_leader)
     = Some (Inr OK)"
    by (simp add: eval_defs absorbed_then_done_def)
  have r1: "map_option (map_sum id fst) (EnterWriteThread False 2 10 deadline_passes one_leader)
     = Some (Inr TimedOut)"
    unfolding run1 by simp
  from r1 e ex nb ex2 ib run2 sw show ?thesis
    unfolding n0 One_nat_def by blast
qed

section \<open>EnterWriteThread: a follower that times out\<close>

lemma follower_timeouts_last:
  assumes "calls \<noteq> []" and "follower_timeouts ndebug calls s = Some s''"
  shows "\<exists>w e ks s0 . EnterWriteThread ndebug w e ks s0 = Some (Inr (TimedOut, s''))"
  using assms
proof (induction calls arbitrary: s)
  case Nil
  then show ?case by simp
next
  case (Cons c calls)
  obtain w e ks where c: "c = (w, e, ks)" by (cases c) auto
  from Cons.prems(2) c obtain s1 where
    s1: "EnterWriteThread ndebug w e ks s = Some (Inr (TimedOut, s1))"
    and rest: "follower_timeouts ndebug calls s1 = Some s''"
    by (auto split: option.splits sum.splits Status.splits)
  show ?case
  proof (cases calls)
    case Nil
    with rest s1 show ?thesis by auto
  next
    case (Cons a list)
    with Cons.IH rest show ?thesis by blast
  qed
qed

text \<open>
  C6. When \<^verbatim>\<open>EnterWriteThread\<close> returns \<^verbatim>\<open>TimedOut\<close>, the state is the one in which the
  expired wait returned, with the first occurrence of \<^verbatim>\<open>w\<close> erased from \<^verbatim>\<open>writers_\<close>
  (\<^verbatim>\<open>w\<close> is gone when the queue had no duplicates) and, when a writer remains, one more
  signal, to the new head. Hence after a non-empty sequence of calls that time out,
  \<^verbatim>\<open>writers_\<close> is empty or the last signal went to its head.
\<close>

theorem EnterWriteThread_timeout_repairs_queue:
  "(EnterWriteThread ndebug w e ks s = Some (Inr (TimedOut, s')) \<longrightarrow>
      (\<exists>n < length ks. expired (ks ! n) \<and>
         (let s1 = after_wakeups (Suc n) ks (push_back w s)
          in writers s' = remove1 w (writers s1)
           \<and> (\<not> ndebug \<longrightarrow> w \<in> set (writers s1))
           \<and> (distinct (writers s1) \<longrightarrow> w \<notin> set (writers s'))
           \<and> cv_signals s' = cv_signals s1 @ (case writers s' of [] \<Rightarrow> [] | front # _ \<Rightarrow> [front])
           \<and> heap s' = heap s1 \<and> parallel_writers s' = parallel_writers s1
           \<and> unfinished_threads s' = unfinished_threads s1)))
   \<and> (calls \<noteq> [] \<and> follower_timeouts ndebug calls s = Some s'' \<longrightarrow>
        writers s'' = [] \<or> (cv_signals s'' \<noteq> [] \<and> last (cv_signals s'') = hd (writers s'')))"
proof -
  have one: "\<exists>n < length ks. expired (ks ! n) \<and>
         (let s1 = after_wakeups (Suc n) ks (push_back w s)
          in writers s' = remove1 w (writers s1)
           \<and> (\<not> ndebug \<longrightarrow> w \<in> set (writers s1))
           \<and> (distinct (writers s1) \<longrightarrow> w \<notin> set (writers s'))
           \<and> cv_signals s' = cv_signals s1 @ (case writers s' of [] \<Rightarrow> [] | front # _ \<Rightarrow> [front])
           \<and> heap s' = heap s1 \<and> parallel_writers s' = parallel_writers s1
           \<and> unfinished_threads s' = unfinished_threads s1)"
    if "EnterWriteThread ndebug w e ks s = Some (Inr (TimedOut, s'))"
    for ndebug w e ks s s'
  proof -
    from EnterWriteThread_TimedOut_D [OF that] obtain s1 where
      wl: "wait_loop w e ks (push_back w s) = Some (Inr (True, s1))"
      and lq: "leave_queue ndebug w True s1 = Inr (TimedOut, s')" by blast
    from wait_loop_timed_out [OF wl] obtain n where n: "n < length ks" "expired (ks ! n)"
      "s1 = after_wakeups (Suc n) ks (push_back w s)" by blast
    from leave_queue_TimedOut [OF lq] n show ?thesis
      by (intro exI [of _ n]) (auto simp: Let_def)
  qed
  have two: "writers s'' = [] \<or> (cv_signals s'' \<noteq> [] \<and> last (cv_signals s'') = hd (writers s''))"
    if "calls \<noteq> []" "follower_timeouts ndebug calls s = Some s''"
  proof -
    from follower_timeouts_last [OF that] obtain w e ks s0 where
      "EnterWriteThread ndebug w e ks s0 = Some (Inr (TimedOut, s''))" by blast
    from one [OF this] show ?thesis
      by (cases "writers s''") (auto simp: Let_def)
  qed
  from one two show ?thesis by blast
qed

text \<open>
  Scenario S5: a third writer has entered when the deadline of the second passes; the
  second is erased from between the two others and the head is signalled. Then two writers
  that time out one after the other.
\<close>

theorem EnterWriteThread_timeout_repairs_queue_witness:
  "EnterWriteThread False 2 10 newcomer_then_deadline one_leader
     = Some (Inr (TimedOut, (queue_of [1, 3] (\<lambda>p. plain_writer 1024 1))\<lparr>cv_signals := [1]\<rparr>))
   \<and> writers (after_wakeups 2 newcomer_then_deadline (push_back 2 one_leader)) = [1, 2, 3]
   \<and> remove1 2 (writers (after_wakeups 2 newcomer_then_deadline (push_back 2 one_leader)))
       = [1, 3]
   \<and> cv_signals (after_wakeups 2 newcomer_then_deadline (push_back 2 one_leader)) @ [1] = [1]
   \<and> two_timeouts \<noteq> []
   \<and> follower_timeouts False two_timeouts one_leader
       = Some ((queue_of [1] (\<lambda>p. plain_writer 1024 1))\<lparr>cv_signals := [1, 1]\<rparr>)
   \<and> last (cv_signals ((queue_of [1] (\<lambda>p. plain_writer 1024 1))\<lparr>cv_signals := [1, 1]\<rparr>))
       = hd (writers ((queue_of [1] (\<lambda>p. plain_writer 1024 1))\<lparr>cv_signals := [1, 1]\<rparr>))"
proof -
  let ?ks = newcomer_then_deadline
  let ?S = "(queue_of [1, 3] (\<lambda>p. plain_writer 1024 1))\<lparr>cv_signals := [1]\<rparr>"
  let ?T = "(queue_of [1] (\<lambda>p. plain_writer 1024 1))\<lparr>cv_signals := [1, 1]\<rparr>"
  have run: "EnterWriteThread False 2 10 ?ks one_leader = Some (Inr (TimedOut, ?S))"
    by (simp add: eval_defs newcomer_then_deadline_def)
  have seq: "follower_timeouts False two_timeouts one_leader = Some ?T"
    by (simp add: two_timeouts_def eval_defs deadline_passes_def)
  have ne: "two_timeouts \<noteq> []" by (simp add: two_timeouts_def)
  have ks: "length ?ks = 2" "\<not> expired (?ks ! 0)"
    by (simp_all add: newcomer_then_deadline_def)
  have wS: "writers ?S = [1, 3]" "cv_signals ?S = [1]" "writers ?T = [1]" "cv_signals ?T = [1, 1]"
    by (simp_all add: queue_of_def)
  note th = EnterWriteThread_timeout_repairs_queue
      [where ndebug = False and w = 2 and e = 10 and ks = ?ks and s = one_leader and s' = ?S
         and calls = two_timeouts and s'' = ?T]
  from th [THEN conjunct1, rule_format, OF run] obtain n where n: "n < length ?ks"
    and ex: "expired (?ks ! n)"
    and rm: "writers ?S = remove1 2 (writers (after_wakeups (Suc n) ?ks (push_back 2 one_leader)))"
    and sg: "cv_signals ?S = cv_signals (after_wakeups (Suc n) ?ks (push_back 2 one_leader))
               @ (case writers ?S of [] \<Rightarrow> [] | front # _ \<Rightarrow> [front])"
    unfolding Let_def by blast
  from n ex ks have n1: "n = 1" by (cases n) auto
  have s1: "writers (after_wakeups 2 ?ks (push_back 2 one_leader)) = [1, 2, 3]"
    by (simp add: eval_defs newcomer_then_deadline_def numeral_2_eq_2)
  have c2: "remove1 2 (writers (after_wakeups 2 ?ks (push_back 2 one_leader))) = [1, 3]"
    using rm unfolding n1 wS by (simp add: numeral_2_eq_2)
  have c3: "cv_signals (after_wakeups 2 ?ks (push_back 2 one_leader)) @ [1] = [1]"
    using sg unfolding n1 wS by (simp add: numeral_2_eq_2)
  from th [THEN conjunct2, rule_format] ne seq
  have "writers ?T = [] \<or> (cv_signals ?T \<noteq> [] \<and> last (cv_signals ?T) = hd (writers ?T))"
    by blast
  then have c4: "last (cv_signals ?T) = hd (writers ?T)"
    unfolding wS by simp
  from run s1 c2 c3 ne seq c4 show ?thesis by blast
qed

section \<open>EnvNVM::DeleteFile\<close>

text \<open>
  C9. For a path that is not NVM-managed, \<^verbatim>\<open>DeleteFile\<close> returns what \<^verbatim>\<open>FileExists\<close> of
  the default environment returns for that path and changes nothing, neither in the default
  environment nor in \<^verbatim>\<open>EnvNVM\<close>: it is \<^verbatim>\<open>EnvNVM::FileExists\<close> on that path.
\<close>

theorem DeleteFile_unmanaged_only_queries:
  assumes "\<not> nvm_managed (FPathInfo_of D fpath)"
  shows "DeleteFile D fpath s = (posix_FileExists D (posix s) fpath, s)
     \<and> posix (snd (DeleteFile D fpath s)) = posix s
     \<and> DeleteFile D fpath s = FileExists D fpath s"
  using assms by (simp add: DeleteFile_def FileExists_def Let_def)

text \<open>
  In the sample environment \<^verbatim>\<open>/db/LOG\<close> exists and is still there
  after \<^verbatim>\<open>DeleteFile\<close> has returned \<^verbatim>\<open>OK\<close>;
  \<^verbatim>\<open>/db/CURRENT\<close> does not exist and
  \<^verbatim>\<open>DeleteFile\<close> returns \<^verbatim>\<open>NotFound\<close>.
\<close>

theorem DeleteFile_unmanaged_only_queries_witness:
  "\<not> nvm_managed (FPathInfo_of sample_collaborators ''/db/LOG'')
   \<and> ''/db/LOG'' \<in> set (posix sample_env)
   \<and> DeleteFile sample_collaborators ''/db/LOG'' sample_env = (OK, sample_env)
   \<and> \<not> nvm_managed (FPathInfo_of sample_collaborators ''/db/CURRENT'')
   \<and> ''/db/CURRENT'' \<notin> set (posix sample_env)
   \<and> DeleteFile sample_collaborators ''/db/CURRENT'' sample_env = (NotFound, sample_env)"
proof -
  have m1: "\<not> nvm_managed (FPathInfo_of sample_collaborators ''/db/LOG'')"
    by (simp add: sample_collaborators_def sample_info_def)
  have m2: "\<not> nvm_managed (FPathInfo_of sample_collaborators ''/db/CURRENT'')"
    by (simp add: sample_collaborators_def sample_info_def)
  have e1: "''/db/LOG'' \<in> set (posix sample_env)"
    and e2: "''/db/CURRENT'' \<notin> set (posix sample_env)"
    by (simp_all add: sample_env_def)
  have q1: "posix_FileExists sample_collaborators (posix sample_env) ''/db/LOG'' = OK"
    using e1 by (simp add: sample_collaborators_def)
  have q2: "posix_FileExists sample_collaborators (posix sample_env) ''/db/CURRENT'' = NotFound"
    using e2 by (simp add: sample_collaborators_def)
  from DeleteFile_unmanaged_only_queries [OF m1, of sample_env, THEN conjunct1]
       DeleteFile_unmanaged_only_queries [OF m2, of sample_env, THEN conjunct1]
       m1 m2 e1 e2
  show ?thesis unfolding q1 q2 by blast
qed

section \<open>EnvNVM::RenameFile\<close>

lemmas sample_defs = sample_env_def sample_collaborators_def sample_info_def
  RenameFile_def DeleteFile_def FileExists_def FindFileUnguarded_def DeleteFileUnguarded_def
  Let_def

lemma RenameFile_unmanaged_source:
  "\<not> nvm_managed (FPathInfo_of D fpath_src) \<Longrightarrow>
   RenameFile D fpath_src fpath_tgt s =
     (fst (posix_RenameFile D (posix s) fpath_src fpath_tgt),
      s\<lparr>posix := snd (posix_RenameFile D (posix s) fpath_src fpath_tgt)\<rparr>)"
  by (simp add: RenameFile_def Let_def split: prod.splits)

text \<open>
  C1. The test for a rename across the boundary compares the source with itself and
  never fires. \<^verbatim>\<open>/db/LOG\<close> is not NVM-managed and \<^verbatim>\<open>/db/000008.sst\<close> is: the rename is
  handed to the default environment and returns \<^verbatim>\<open>OK\<close>. \<^verbatim>\<open>/db/000007.sst\<close> is
  NVM-managed and \<^verbatim>\<open>/db/LOG.old\<close> is not: the loaded file is renamed and \<^verbatim>\<open>OK\<close> is
  returned. No \<^verbatim>\<open>IOError\<close> in either direction.
\<close>

theorem RenameFile_boundary_not_checked:
  "nvm_managed (FPathInfo_of sample_collaborators ''/db/LOG'') = False
   \<and> nvm_managed (FPathInfo_of sample_collaborators ''/db/000008.sst'') = True
   \<and> fst (RenameFile sample_collaborators ''/db/LOG'' ''/db/000008.sst'' sample_env) = OK
   \<and> posix (snd (RenameFile sample_collaborators ''/db/LOG'' ''/db/000008.sst'' sample_env))
       = [''/db/000008.sst'', ''/db/000009.sst.meta'']
   \<and> nvm_managed (FPathInfo_of sample_collaborators ''/db/000007.sst'') = True
   \<and> nvm_managed (FPathInfo_of sample_collaborators ''/db/LOG.old'') = False
   \<and> fst (RenameFile sample_collaborators ''/db/000007.sst'' ''/db/LOG.old'' sample_env) = OK
   \<and> objects (snd (RenameFile sample_collaborators ''/db/000007.sst'' ''/db/LOG.old'' sample_env)) 1
       = ''LOG.old''"
  by (simp add: sample_defs)










end
